theory Spec2Isabelle
  imports Main "HOL-Library.Char_ord" "HOL-Library.List_Lexorder"
begin

section \<open>Python values and string primitives used by update\_gff.py\<close>

text \<open>
  The program is Python 2: a \<open>str\<close> is a byte string (here \<open>string\<close>), an \<open>int\<close> is
  unbounded (here \<open>int\<close>), and an uncaught exception ends the run (here the left summand
  of \<open>error + 'a\<close>).
\<close>

datatype error = IndexError | KeyError | ValueError | AttributeError | IOError

definition bind_e :: "error + 'a \<Rightarrow> ('a \<Rightarrow> error + 'b) \<Rightarrow> error + 'b" where
  "bind_e r f = (case r of Inl e \<Rightarrow> Inl e | Inr v \<Rightarrow> f v)"

text \<open>\<open>xs[i]\<close> for a non-negative index: IndexError out of range.\<close>

definition nth_py :: "'a list \<Rightarrow> nat \<Rightarrow> error + 'a" where
  "nth_py xs i = (if i < length xs then Inr (xs ! i) else Inl IndexError)"

text \<open>\<open>d[k]\<close> on a plain dict: KeyError when the key is missing.\<close>

definition lookup_py :: "('k \<rightharpoonup> 'v) \<Rightarrow> 'k \<Rightarrow> error + 'v" where
  "lookup_py d k = (case d k of None \<Rightarrow> Inl KeyError | Some v \<Rightarrow> Inr v)"

definition TAB :: char where
  "TAB = CHR 0x09"

definition NL :: char where
  "NL = CHR 0x0A"

text \<open>The bytes \<open>str.strip()\<close> removes: space, \<open>\t \n \v \f \r\<close>.\<close>

definition is_space :: "char \<Rightarrow> bool" where
  "is_space c = (c = CHR '' '' \<or> c = CHR 0x09 \<or> c = CHR 0x0A \<or> c = CHR 0x0B
                  \<or> c = CHR 0x0C \<or> c = CHR 0x0D)"

definition strip :: "string \<Rightarrow> string" where
  "strip s = rev (dropWhile is_space (rev (dropWhile is_space s)))"

definition startswith :: "string \<Rightarrow> string \<Rightarrow> bool" where
  "startswith s p = (take (length p) s = p)"

text \<open>\<open>s.split(sep)\<close> for a one-byte separator: never empty, keeps empty fields.\<close>

fun split_on :: "char \<Rightarrow> string \<Rightarrow> string list" where
  "split_on sep [] = [[]]"
| "split_on sep (c # cs) =
     (if c = sep then [] # split_on sep cs
      else (case split_on sep cs of
              [] \<Rightarrow> [[c]]
            | t # ts \<Rightarrow> (c # t) # ts))"

text \<open>\<open>sep.join(tokens)\<close>.\<close>

fun join :: "string \<Rightarrow> string list \<Rightarrow> string" where
  "join sep [] = []"
| "join sep [t] = t"
| "join sep (t # u # ts) = t @ sep @ join sep (u # ts)"

definition is_digit :: "char \<Rightarrow> bool" where
  "is_digit c = (c \<in> set ''0123456789'')"

text \<open>The value of a decimal digit: its position in \<open>0123456789\<close>.\<close>

definition digit_val :: "char \<Rightarrow> nat" where
  "digit_val c = length (takeWhile (\<lambda>d. d \<noteq> c) ''0123456789'')"

definition digits_val :: "string \<Rightarrow> nat" where
  "digits_val ds = foldl (\<lambda>a c. 10 * a + digit_val c) 0 ds"

text \<open>
  \<open>int(s)\<close> on a \<open>str\<close>, base ten: surrounding whitespace is dropped, one sign is allowed,
  then at least one digit and nothing else; anything else raises ValueError.
\<close>

definition py_int :: "string \<Rightarrow> error + int" where
  "py_int s =
     (let t = strip s;
          neg = (t \<noteq> [] \<and> hd t = CHR ''-'');
          ds = (if t \<noteq> [] \<and> (hd t = CHR ''-'' \<or> hd t = CHR ''+'') then tl t else t)
      in if ds \<noteq> [] \<and> list_all is_digit ds
         then Inr (if neg then - int (digits_val ds) else int (digits_val ds))
         else Inl ValueError)"

definition digit_char :: "nat \<Rightarrow> char" where
  "digit_char d = ''0123456789'' ! d"

function show_nat :: "nat \<Rightarrow> string" where
  "show_nat n = (if n < 10 then [digit_char n] else show_nat (n div 10) @ [digit_char (n mod 10)])"
  by pat_completeness auto
termination
  by (relation "measure id") auto

declare show_nat.simps [simp del]

text \<open>\<open>str(i)\<close> and \<open>'%d' % i\<close> for an integer.\<close>

definition py_str :: "int \<Rightarrow> string" where
  "py_str i = (if i < 0 then CHR ''-'' # show_nat (nat (- i)) else show_nat (nat i))"

section \<open>Data model\<close>

text \<open>
  One row of the alignment table, \<open>[old_id, old_start, old_end, new_id, new_start, new_end]\<close>
  (\<open>a[0]\<close> .. \<open>a[5]\<close> in the source), as the loader builds it from a line of six fields.
\<close>

record alignment =
  old_id :: string
  old_start :: int
  old_end :: int
  new_id :: string
  new_start :: int
  new_end :: int

datatype status = HEADER | KEEP | SEQUENCE_REMOVED | POSITION_REMOVED | SEQUENCE_REGION

text \<open>
  The body of a \<open>for line in f\<close> loop either goes on to the next line (also after
  \<open>continue\<close>) or leaves the loop with \<open>break\<close>; an exception ends everything.
\<close>

datatype 's ctl = Next 's | Stop 's

fun for_lines :: "(string \<Rightarrow> 's \<Rightarrow> error + 's ctl) \<Rightarrow> string list \<Rightarrow> 's \<Rightarrow> error + 's" where
  "for_lines body [] s = Inr s"
| "for_lines body (l # ls) s =
     (case body l s of
        Inl e \<Rightarrow> Inl e
      | Inr (Stop s') \<Rightarrow> Inr s'
      | Inr (Next s') \<Rightarrow> for_lines body ls s')"

text \<open>The states the loop passes through: before each line it reads, and the last one.\<close>

fun loop_states :: "(string \<Rightarrow> 's \<Rightarrow> error + 's ctl) \<Rightarrow> string list \<Rightarrow> 's \<Rightarrow> 's list" where
  "loop_states body [] s = [s]"
| "loop_states body (l # ls) s =
     s # (case body l s of
            Inl e \<Rightarrow> []
          | Inr (Stop s') \<Rightarrow> [s']
          | Inr (Next s') \<Rightarrow> loop_states body ls s')"

section \<open>GffUpdater.\_\_init\_\_: the alignment index\<close>

text \<open>
  \<open>alignment_dict\<close> is a \<open>defaultdict(list)\<close> filled by
  \<open>for a in alignment_list: alignment_dict[a[0]].append(a)\<close>; a key is present exactly when
  a row was appended under it.
\<close>

definition alignment_dict_of :: "alignment list \<Rightarrow> (string \<rightharpoonup> alignment list)" where
  "alignment_dict_of al =
     fold (\<lambda>a d. d(old_id a \<mapsto> (case d (old_id a) of None \<Rightarrow> [] | Some l \<Rightarrow> l) @ [a]))
       al Map.empty"

section \<open>GffUpdater.\_find\_root\_features: the first pass\<close>

text \<open>
  \<open>re.findall('([^=;]+)=([^=;\n]+)', attributes)\<close>, scanning left to right. A key is
  a longest run of bytes other than \<open>=\<close> and \<open>;\<close> that is followed by \<open>=\<close>; its value is
  the longest non-empty run after it of bytes other than \<open>=\<close>, \<open>;\<close> and newline. When
  the value is empty no start position inside the key matches, and the scan resumes
  after the \<open>=\<close>; after a match it resumes at the byte that ended the value.
  \<open>scan_key k\<close> holds the run read so far, \<open>scan_val k v\<close> the key and the value read so far.
\<close>

fun scan_key :: "string \<Rightarrow> string \<Rightarrow> (string \<times> string) list"
  and scan_val :: "string \<Rightarrow> string \<Rightarrow> string \<Rightarrow> (string \<times> string) list" where
  "scan_key k [] = []"
| "scan_key k (c # cs) =
     (if c = CHR '';'' then scan_key [] cs
      else if c = CHR ''='' then (if k = [] then scan_key [] cs else scan_val k [] cs)
      else scan_key (k @ [c]) cs)"
| "scan_val k v [] = (if v = [] then [] else [(k, v)])"
| "scan_val k v (c # cs) =
     (if c = CHR '';'' \<or> c = CHR ''='' then
        (if v = [] then scan_key [] cs else (k, v) # scan_key [] cs)
      else if c = NL then
        (if v = [] then scan_key [NL] cs else (k, v) # scan_key [NL] cs)
      else scan_val k (v @ [c]) cs)"

definition findall_attrs :: "string \<Rightarrow> (string \<times> string) list" where
  "findall_attrs attributes = scan_key [] attributes"

text \<open>\<open>dict(pairs)\<close>: a later pair with the same key replaces an earlier one.\<close>

definition dict_of :: "('k \<times> 'v) list \<Rightarrow> ('k \<rightharpoonup> 'v)" where
  "dict_of pairs = map_of (rev pairs)"

text \<open>
  The fields the pass writes, with its loop variable. \<open>gff_root_line_dict\<close> is a
  \<open>defaultdict(list)\<close>: a key never written reads as the empty list.
\<close>

record root_state =
  gff_line_root_list :: "nat list"
  gff_root_line_dict :: "nat \<Rightarrow> nat list"
  gff_id_line :: "string \<rightharpoonup> nat"
  feature_count :: nat
  has_fasta :: bool
  current_line_num :: nat

definition root_init :: root_state where
  "root_init = \<lparr>gff_line_root_list = [], gff_root_line_dict = (\<lambda>_. []),
                 gff_id_line = Map.empty, feature_count = 0, has_fasta = False,
                 current_line_num = 0\<rparr>"

text \<open>Appending line \<open>n\<close> under root \<open>r\<close> (both structures).\<close>

definition add_line :: "nat \<Rightarrow> nat \<Rightarrow> root_state \<Rightarrow> root_state" where
  "add_line r n s =
     s\<lparr>gff_line_root_list := gff_line_root_list s @ [r],
       gff_root_line_dict := (gff_root_line_dict s)(r := gff_root_line_dict s r @ [n])\<rparr>"

definition find_root_step :: "string \<Rightarrow> root_state \<Rightarrow> error + root_state ctl" where
  "find_root_step line s =
     (if strip line = [] then Inr (Next s)
      else if hd line = CHR ''#'' then
        (let s1 = add_line (current_line_num s) (current_line_num s) s
         in if strip line = ''##FASTA'' then Inr (Stop (s1\<lparr>has_fasta := True\<rparr>))
            else Inr (Next (s1\<lparr>current_line_num := current_line_num s + 1\<rparr>)))
      else
        bind_e (nth_py (split_on TAB line) 8) (\<lambda>attributes.
          let attribute_dict = dict_of (findall_attrs attributes);
              n = current_line_num s;
              s1 = (case attribute_dict ''ID'' of
                      None \<Rightarrow> s
                    | Some i \<Rightarrow> s\<lparr>gff_id_line := (gff_id_line s)(i \<mapsto> n)\<rparr>)
          in bind_e
               (case attribute_dict ''Parent'' of
                  Some p \<Rightarrow>
                    bind_e (lookup_py (gff_id_line s1) p) (\<lambda>j.
                    bind_e (nth_py (gff_line_root_list s1) j) (\<lambda>r.
                      Inr (add_line r n s1)))
                | None \<Rightarrow> Inr (add_line n n s1))
               (\<lambda>s2. Inr (Next (s2\<lparr>feature_count := feature_count s2 + 1,
                                     current_line_num := n + 1\<rparr>)))))"

definition find_root_features :: "string list \<Rightarrow> error + root_state" where
  "find_root_features gff = for_lines find_root_step gff root_init"

section \<open>GffUpdater.\_update\_features: the second pass\<close>

text \<open>
  The fields the pass writes and its loop variable (\<open>current_line_num\<close> in the source;
  the name is taken by the first pass's record).
\<close>

record upd_state =
  gff_line_status_dict :: "nat \<rightharpoonup> status"
  gff_line_list :: "string list"
  gff_converted_line_dict :: "nat \<rightharpoonup> string"
  line_num :: nat

definition upd_init :: upd_state where
  "upd_init = \<lparr>gff_line_status_dict = Map.empty, gff_line_list = [],
                gff_converted_line_dict = Map.empty, line_num = 0\<rparr>"

text \<open>The filter of lines 162 and 163: \<open>lambda m: m[1] < p and p <= m[2]\<close>.\<close>

definition covering :: "int \<Rightarrow> alignment list \<Rightarrow> alignment list" where
  "covering p mappings = filter (\<lambda>m. old_start m < p \<and> p \<le> old_end m) mappings"

text \<open>\<open>for lc in group: gff_line_status_dict[lc] = v\<close>.\<close>

definition mark_group :: "nat list \<Rightarrow> status \<Rightarrow> (nat \<rightharpoonup> status) \<Rightarrow> (nat \<rightharpoonup> status)" where
  "mark_group g v d = fold (\<lambda>lc d'. d'(lc \<mapsto> v)) g d"

definition remove_group ::
  "nat list \<Rightarrow> (nat \<Rightarrow> nat list) \<Rightarrow> status \<Rightarrow> upd_state \<Rightarrow> error + upd_state" where
  "remove_group roots groups v s =
     bind_e (nth_py roots (line_num s)) (\<lambda>r.
       Inr (s\<lparr>gff_line_status_dict := mark_group (groups r) v (gff_line_status_dict s)\<rparr>))"

text \<open>Lines 158 to 176: one feature line that is undecided or KEEP.\<close>

definition update_feature ::
  "(string \<rightharpoonup> alignment list) \<Rightarrow> nat list \<Rightarrow> (nat \<Rightarrow> nat list) \<Rightarrow> string \<Rightarrow> upd_state
     \<Rightarrow> error + upd_state" where
  "update_feature adict roots groups line s =
     (let tokens = split_on TAB line in
      case adict (hd tokens) of
        None \<Rightarrow> remove_group roots groups SEQUENCE_REMOVED s
      | Some mappings \<Rightarrow>
          bind_e (nth_py tokens 3) (\<lambda>t3.
          bind_e (py_int t3) (\<lambda>start.
          bind_e (nth_py tokens 4) (\<lambda>t4.
          bind_e (py_int t4) (\<lambda>end'.
            let start_mapping = covering start mappings;
                end_mapping = covering end' mappings
            in if length start_mapping \<noteq> 1 \<or> length end_mapping \<noteq> 1
               then remove_group roots groups POSITION_REMOVED s
               else
                 bind_e (nth_py mappings 0) (\<lambda>m0.
                 bind_e (nth_py start_mapping 0) (\<lambda>sm.
                 bind_e (nth_py end_mapping 0) (\<lambda>em.
                   let tokens' = tokens
                         [0 := new_id m0,
                          3 := py_str (start - old_start sm + new_start sm),
                          4 := py_str (end' - old_start em + new_start em)]
                   in Inr (s\<lparr>gff_line_status_dict :=
                               (gff_line_status_dict s)(line_num s \<mapsto> KEEP),
                             gff_converted_line_dict :=
                               (gff_converted_line_dict s)(line_num s \<mapsto> join [TAB] tokens')\<rparr>)))))))))"

text \<open>Lines 177 and 178, reached by every non-blank line that does not break.\<close>

definition append_line :: "string \<Rightarrow> upd_state \<Rightarrow> upd_state" where
  "append_line line s = s\<lparr>gff_line_list := gff_line_list s @ [line], line_num := line_num s + 1\<rparr>"

definition update_step ::
  "(string \<rightharpoonup> alignment list) \<Rightarrow> nat list \<Rightarrow> (nat \<Rightarrow> nat list) \<Rightarrow> string \<Rightarrow> upd_state
     \<Rightarrow> error + upd_state ctl" where
  "update_step adict roots groups line s =
     (if strip line = [] then Inr (Next s)
      else if hd line = CHR ''#'' then
        (let s1 = s\<lparr>gff_converted_line_dict := (gff_converted_line_dict s)(line_num s \<mapsto> line)\<rparr>
         in if startswith (strip line) ''##sequence-region'' then
              Inr (Next (append_line line
                (s1\<lparr>gff_line_status_dict := (gff_line_status_dict s1)(line_num s \<mapsto> SEQUENCE_REGION)\<rparr>)))
            else if strip line = ''##FASTA'' then Inr (Stop s1)
            else
              Inr (Next (append_line line
                (s1\<lparr>gff_line_status_dict := (gff_line_status_dict s1)(line_num s \<mapsto> HEADER)\<rparr>))))
      else if gff_line_status_dict s (line_num s) = None
              \<or> gff_line_status_dict s (line_num s) = Some KEEP then
        bind_e (update_feature adict roots groups line s) (\<lambda>s1. Inr (Next (append_line line s1)))
      else Inr (Next (append_line line s)))"

definition update_features ::
  "(string \<rightharpoonup> alignment list) \<Rightarrow> root_state \<Rightarrow> string list \<Rightarrow> error + upd_state" where
  "update_features adict rs gff =
     for_lines (update_step adict (gff_line_root_list rs) (gff_root_line_dict rs)) gff upd_init"

section \<open>GffUpdater.\_output\_sequence\_region and \_output\_features: the third pass\<close>

text \<open>\<open>itertools.groupby\<close>: maximal runs of consecutive elements with the same key.\<close>

function groupby :: "('a \<Rightarrow> 'k) \<Rightarrow> 'a list \<Rightarrow> ('k \<times> 'a list) list" where
  "groupby key [] = []"
| "groupby key (x # xs) =
     (key x, x # takeWhile (\<lambda>y. key y = key x) xs)
       # groupby key (dropWhile (\<lambda>y. key y = key x) xs)"
  by pat_completeness auto
termination
  by (relation "measure (\<lambda>(key, xs). length xs)") (auto simp: length_dropWhile_le less_Suc_eq_le)

text \<open>\<open>min(pos)\<close> and \<open>max(pos)\<close>: ValueError on an empty list.\<close>

definition min_py :: "int list \<Rightarrow> error + int" where
  "min_py pos = (if pos = [] then Inl ValueError else Inr (fold min (tl pos) (hd pos)))"

definition max_py :: "int list \<Rightarrow> error + int" where
  "max_py pos = (if pos = [] then Inl ValueError else Inr (fold max (tl pos) (hd pos)))"

text \<open>\<open>'##sequence-region %s %d %d\n' % (new_id, lo, hi)\<close>.\<close>

definition region_line :: "string \<Rightarrow> int \<Rightarrow> int \<Rightarrow> string" where
  "region_line i lo hi =
     ''##sequence-region '' @ i @ '' '' @ py_str lo @ '' '' @ py_str hi @ [NL]"

text \<open>A \<open>for x in xs\<close> loop without \<open>break\<close> whose body may raise.\<close>

fun for_each :: "('a \<Rightarrow> 's \<Rightarrow> error + 's) \<Rightarrow> 'a list \<Rightarrow> 's \<Rightarrow> error + 's" where
  "for_each body [] s = Inr s"
| "for_each body (x # xs) s = bind_e (body x s) (for_each body xs)"

definition region_step ::
  "string \<times> alignment list \<Rightarrow> (string \<rightharpoonup> string) \<Rightarrow> error + (string \<rightharpoonup> string)" where
  "region_step g d =
     (let pos = concat (map (\<lambda>a. [new_start a, new_end a]) (snd g))
      in bind_e (min_py pos) (\<lambda>lo.
         bind_e (max_py pos) (\<lambda>hi.
           Inr (d(fst g \<mapsto> region_line (fst g) (lo + 1) hi)))))"

definition output_sequence_region :: "alignment list \<Rightarrow> error + (string \<rightharpoonup> string)" where
  "output_sequence_region alignment_list =
     for_each region_step (groupby new_id (sort_key new_id alignment_list)) Map.empty"

text \<open>
  The two files as the lists of strings written to them, the two tallies, and the set
  \<open>wrote_sequence_region\<close>.
\<close>

record out_state =
  updated_file :: "string list"
  removed_file :: "string list"
  updated_count :: nat
  removed_count :: nat
  wrote_sequence_region :: "string set"

definition out_init :: out_state where
  "out_init = \<lparr>updated_file = [], removed_file = [], updated_count = 0, removed_count = 0,
                wrote_sequence_region = {}\<rparr>"

definition output_step ::
  "(string \<rightharpoonup> string) \<Rightarrow> upd_state \<Rightarrow> nat \<times> string \<Rightarrow> out_state \<Rightarrow> error + out_state" where
  "output_step sequence_regions u e s =
     (let lc = fst e; line = snd e in
      bind_e (lookup_py (gff_line_status_dict u) lc) (\<lambda>st.
        if st = KEEP then
          bind_e (lookup_py (gff_converted_line_dict u) lc) (\<lambda>conv.
            let Scaffold = hd (split_on TAB conv) in
            bind_e
              (if Scaffold \<notin> wrote_sequence_region s then
                 bind_e (lookup_py sequence_regions Scaffold) (\<lambda>r.
                   Inr (s\<lparr>updated_file := updated_file s @ [r],
                          wrote_sequence_region := insert Scaffold (wrote_sequence_region s)\<rparr>))
               else Inr s)
              (\<lambda>s1. Inr (s1\<lparr>updated_file := updated_file s1 @ [conv],
                              updated_count := updated_count s1 + 1\<rparr>)))
        else if st = HEADER then
          bind_e (lookup_py (gff_converted_line_dict u) lc) (\<lambda>conv.
            Inr (s\<lparr>updated_file := updated_file s @ [conv]\<rparr>))
        else if st = POSITION_REMOVED \<or> st = SEQUENCE_REMOVED then
          Inr (s\<lparr>removed_file := removed_file s @ [line],
                 removed_count := removed_count s + 1\<rparr>)
        else Inr s))"

definition output_features :: "alignment list \<Rightarrow> upd_state \<Rightarrow> error + out_state" where
  "output_features alignment_list u =
     bind_e (output_sequence_region alignment_list) (\<lambda>sequence_regions.
       for_each (output_step sequence_regions u)
         (zip [0 ..< length (gff_line_list u)] (gff_line_list u)) out_init)"

section \<open>GffUpdater.update\<close>

definition update :: "alignment list \<Rightarrow> string list \<Rightarrow> error + out_state" where
  "update alignment_list gff =
     bind_e (find_root_features gff) (\<lambda>rs.
     bind_e (update_features (alignment_dict_of alignment_list) rs gff) (\<lambda>u.
       output_features alignment_list u))"

section \<open>GffUpdater.read\_alignment\_list\_tsv\<close>

text \<open>
  The loader's rows are Python lists of \<open>str\<close> and \<open>int\<close> values, as long as
  \<open>zip(tsv_format, line.split('\t'))\<close> makes them.
\<close>

datatype pyval = PyStr string | PyInt int

definition conv_str :: "string \<Rightarrow> error + pyval" where
  "conv_str t = Inr (PyStr t)"

definition conv_int :: "string \<Rightarrow> error + pyval" where
  "conv_int t = bind_e (py_int t) (\<lambda>i. Inr (PyInt i))"

definition tsv_format :: "(string \<Rightarrow> error + pyval) list" where
  "tsv_format = [conv_str, conv_int, conv_int, conv_str, conv_int, conv_int]"

text \<open>\<open>[f(t) for f, t in zip(tsv_format, fields)]\<close>: the first failing conversion raises.\<close>

fun convert_fields :: "((string \<Rightarrow> error + pyval) \<times> string) list \<Rightarrow> error + pyval list" where
  "convert_fields [] = Inr []"
| "convert_fields ((f, t) # rest) =
     bind_e (f t) (\<lambda>v. bind_e (convert_fields rest) (\<lambda>vs. Inr (v # vs)))"

definition parse_row :: "string \<Rightarrow> error + pyval list" where
  "parse_row line = convert_fields (zip tsv_format (split_on TAB line))"

fun parse_rows :: "string list \<Rightarrow> error + pyval list list" where
  "parse_rows [] = Inr []"
| "parse_rows (line # rest) =
     bind_e (parse_row line) (\<lambda>r. bind_e (parse_rows rest) (\<lambda>rs. Inr (r # rs)))"

text \<open>
  A file object: its name, the lines not read yet, and whether it is closed. The loader's
  argument is a \<open>str\<close> (a path) or a file object; the file system maps a path to the
  lines of the file.
\<close>

record py_file =
  file_name :: string
  pending :: "string list"
  closed :: bool

datatype source = Path string | File py_file

text \<open>\<open>x.name\<close>: a \<open>str\<close> has no such attribute.\<close>

definition name_of :: "source \<Rightarrow> error + string" where
  "name_of x = (case x of Path p \<Rightarrow> Inl AttributeError | File f \<Rightarrow> Inr (file_name f))"

definition open_py :: "(string \<rightharpoonup> string list) \<Rightarrow> string \<Rightarrow> error + py_file" where
  "open_py fs p =
     (case fs p of
        None \<Rightarrow> Inl IOError
      | Some ls \<Rightarrow> Inr \<lparr>file_name = p, pending = ls, closed = False\<rparr>)"

text \<open>
  Returns the rows and the file object that was read, as the loader leaves it. Line 71
  reads \<open>alignment_list_tsv_file_f.name\<close> while that variable still holds the argument,
  before line 72 opens the path.
\<close>

definition read_alignment_list_tsv ::
  "(string \<rightharpoonup> string list) \<Rightarrow> source \<Rightarrow> error + (pyval list list \<times> py_file)" where
  "read_alignment_list_tsv fs alignment_list_tsv_file =
     bind_e
       (case alignment_list_tsv_file of
          Path p \<Rightarrow> bind_e (name_of alignment_list_tsv_file) (\<lambda>_. open_py fs p)
        | File f \<Rightarrow> Inr f) (\<lambda>f.
     bind_e (if closed f then Inl ValueError else parse_rows (pending f)) (\<lambda>alignment_list.
       let f1 = f\<lparr>pending := []\<rparr> in
       (case alignment_list_tsv_file of
          Path p \<Rightarrow> Inr (alignment_list, f1\<lparr>closed := True\<rparr>)
        | File _ \<Rightarrow> bind_e (name_of (File f1)) (\<lambda>_. Inr (alignment_list, f1)))))"

section \<open>Inputs used in the examples, and predicates used in the statements\<close>

definition example_alignment :: alignment where
  "example_alignment = \<lparr>old_id = ''chr1'', old_start = 100, old_end = 200,
                          new_id = ''chr1_new'', new_start = 1000, new_end = 1100\<rparr>"

definition example_feature :: string where
  "example_feature =
     join [TAB] [''chr1'', ''.'', ''gene'', ''150'', ''180'', ''.'', ''+'', ''.'', ''ID=g1'']"

text \<open>A row whose old interval is empty.\<close>

definition degenerate_alignment :: alignment where
  "degenerate_alignment = \<lparr>old_id = ''chr1'', old_start = 5, old_end = 5,
                             new_id = ''chr1_new'', new_start = 0, new_end = 0\<rparr>"

text \<open>One old sequence split over two new ones.\<close>

definition split_first :: alignment where
  "split_first = \<lparr>old_id = ''chr1'', old_start = 0, old_end = 100,
                    new_id = ''A'', new_start = 0, new_end = 100\<rparr>"

definition split_second :: alignment where
  "split_second = \<lparr>old_id = ''chr1'', old_start = 100, old_end = 200,
                     new_id = ''B'', new_start = 0, new_end = 100\<rparr>"

text \<open>An alignment line with seven fields, one with two, and an open stream holding both.\<close>

definition seven_fields :: string where
  "seven_fields =
     join [TAB] [''chr1'', ''100'', ''200'', ''chr1_new'', ''1000'', ''1100'', ''extra'']"

definition two_fields :: string where
  "two_fields = join [TAB] [''chr1'', ''100'']"

definition example_stream :: py_file where
  "example_stream = \<lparr>file_name = ''<stdin>'', pending = [seven_fields, two_fields],
                       closed = False\<rparr>"

text \<open>
  A line of the alignment input one of whose coordinate fields (the second, third, fifth
  or sixth, when the line has it) is not an integer literal.
\<close>

definition bad_coordinate :: "string \<Rightarrow> bool" where
  "bad_coordinate line =
     (\<exists>i. i < length (split_on TAB line) \<and> i \<in> {1, 2, 4, 5}
          \<and> py_int (split_on TAB line ! i) = Inl ValueError)"

text \<open>The converters of \<open>tsv_format\<close> by kind: True for \<open>int\<close>, False for \<open>str\<close>.\<close>

definition fmt_of :: "bool list \<Rightarrow> (string \<Rightarrow> error + pyval) list" where
  "fmt_of flags = map (\<lambda>b. if b then conv_int else conv_str) flags"

text \<open>
  The kinds of line the passes distinguish, in the order they test them: blank lines
  first, then comment lines (first byte \<open>#\<close>), of which \<open>##FASTA\<close> ends the loop.
\<close>

definition is_blank :: "string \<Rightarrow> bool" where
  "is_blank line = (strip line = [])"

definition is_comment :: "string \<Rightarrow> bool" where
  "is_comment line = (hd line = CHR ''#'')"

definition is_fasta :: "string \<Rightarrow> bool" where
  "is_fasta line = (is_comment line \<and> strip line = ''##FASTA'')"

text \<open>
  The lines that receive a line number in the first pass, in order: the non-blank lines
  up to and including the first \<open>##FASTA\<close> line. Line \<open>k\<close> of the passes is \<open>numbered gff ! k\<close>.
\<close>

fun numbered :: "string list \<Rightarrow> string list" where
  "numbered [] = []"
| "numbered (l # ls) =
     (if is_blank l then numbered ls
      else if is_fasta l then [l]
      else l # numbered ls)"

text \<open>The value of an attribute in column 9 of a feature line, if the line has one.\<close>

definition attribute :: "string \<Rightarrow> string \<Rightarrow> string option" where
  "attribute line key =
     (case nth_py (split_on TAB line) 8 of
        Inl _ \<Rightarrow> None
      | Inr a \<Rightarrow> dict_of (findall_attrs a) key)"

definition declares :: "string \<Rightarrow> string \<Rightarrow> bool" where
  "declares line x = (\<not> is_comment line \<and> attribute line ''ID'' = Some x)"

text \<open>The number of the last line among \<open>seen\<close> that declares \<open>ID=x\<close>.\<close>

definition last_decl :: "string list \<Rightarrow> string \<Rightarrow> nat option" where
  "last_decl seen x =
     (let js = filter (\<lambda>j. declares (seen ! j) x) [0 ..< length seen]
      in if js = [] then None else Some (last js))"

definition is_removed :: "status option \<Rightarrow> bool" where
  "is_removed st = (st = Some SEQUENCE_REMOVED \<or> st = Some POSITION_REMOVED)"

text \<open>What the first pass has established after the numbered lines \<open>seen\<close>.\<close>

definition roots_ok :: "string list \<Rightarrow> nat list \<Rightarrow> bool" where
  "roots_ok seen roots =
     (length roots = length seen
      \<and> (\<forall>k < length seen.
           if is_comment (seen ! k) then roots ! k = k
           else roots ! k \<le> k \<and> \<not> is_comment (seen ! (roots ! k))))"

definition groups_ok :: "nat list \<Rightarrow> (nat \<Rightarrow> nat list) \<Rightarrow> bool" where
  "groups_ok roots groups =
     (\<forall>r. groups r = filter (\<lambda>l. roots ! l = r) [0 ..< length roots])"

definition ids_ok :: "string list \<Rightarrow> (string \<rightharpoonup> nat) \<Rightarrow> bool" where
  "ids_ok seen idl = (\<forall>x. idl x = last_decl seen x)"

definition parents_ok :: "string list \<Rightarrow> nat list \<Rightarrow> bool" where
  "parents_ok seen roots =
     (\<forall>k < length seen. \<not> is_comment (seen ! k) \<longrightarrow>
        (case attribute (seen ! k) ''Parent'' of
           None \<Rightarrow> roots ! k = k
         | Some p \<Rightarrow> (\<exists>j < k. last_decl (take k seen) p = Some j \<and> roots ! k = roots ! j)))"

definition tree_inv :: "string list \<Rightarrow> root_state \<Rightarrow> bool" where
  "tree_inv seen s =
     (roots_ok seen (gff_line_root_list s)
      \<and> groups_ok (gff_line_root_list s) (gff_root_line_dict s)
      \<and> ids_ok seen (gff_id_line s)
      \<and> parents_ok seen (gff_line_root_list s))"

text \<open>
  The lines the second pass appends to \<open>gff_line_list\<close>: the non-blank lines before the
  first \<open>##FASTA\<close> line.
\<close>

fun body_lines :: "string list \<Rightarrow> string list" where
  "body_lines [] = []"
| "body_lines (l # ls) =
     (if is_blank l then body_lines ls
      else if is_fasta l then []
      else l # body_lines ls)"

text \<open>
  What the second pass has established after the lines \<open>seen\<close>, where \<open>N\<close> are the numbered
  lines of the file and \<open>roots\<close> the root list of the first pass: only feature lines are
  removed, and whole groups at a time; lines already read are decided; lines not yet read
  are undecided or removed, and the feature lines among them have no converted text.
\<close>

definition upd_inv :: "string list \<Rightarrow> nat list \<Rightarrow> string list \<Rightarrow> upd_state \<Rightarrow> bool" where
  "upd_inv N roots seen s =
     (line_num s = length seen \<and> gff_line_list s = seen
      \<and> length seen \<le> length N \<and> take (length seen) N = seen
      \<and> (\<forall>l. is_removed (gff_line_status_dict s l) \<longrightarrow> l < length N \<and> \<not> is_comment (N ! l))
      \<and> (\<forall>l l'. is_removed (gff_line_status_dict s l) \<and> l' < length N \<and> roots ! l' = roots ! l
             \<longrightarrow> is_removed (gff_line_status_dict s l'))
      \<and> (\<forall>l < length seen.
            if is_comment (N ! l)
            then gff_line_status_dict s l = Some HEADER
                 \<or> gff_line_status_dict s l = Some SEQUENCE_REGION
            else gff_line_status_dict s l = Some KEEP \<or> is_removed (gff_line_status_dict s l))
      \<and> (\<forall>l \<ge> length seen. gff_line_status_dict s l = None
                               \<or> is_removed (gff_line_status_dict s l))
      \<and> (\<forall>l \<ge> length seen. l < length N \<and> \<not> is_comment (N ! l)
             \<longrightarrow> gff_converted_line_dict s l = None))"

text \<open>
  From \<open>s\<close> to \<open>s'\<close> no removed line changes its disposition, and no line read before \<open>s\<close>
  changes its converted text.
\<close>

definition keeps_decided :: "upd_state \<Rightarrow> upd_state \<Rightarrow> bool" where
  "keeps_decided s s' =
     ((\<forall>k. is_removed (gff_line_status_dict s k)
           \<longrightarrow> gff_line_status_dict s' k = gff_line_status_dict s k)
      \<and> (\<forall>k < line_num s. gff_converted_line_dict s' k = gff_converted_line_dict s k))"

text \<open>A file that declares \<open>ID=g1\<close> twice and then refers to it.\<close>

definition redeclared_gff :: "string list" where
  "redeclared_gff =
     [join [TAB] [''chr1'', ''.'', ''gene'', ''150'', ''180'', ''.'', ''+'', ''.'', ''ID=g1''] @ [NL],
      join [TAB] [''chr1'', ''.'', ''gene'', ''250'', ''280'', ''.'', ''+'', ''.'', ''ID=g1''] @ [NL],
      join [TAB] [''chr1'', ''.'', ''exon'', ''250'', ''260'', ''.'', ''+'', ''.'', ''Parent=g1''] @ [NL]]"

text \<open>A gene that maps, followed by a child whose start is not covered.\<close>

definition late_failure_gff :: "string list" where
  "late_failure_gff =
     [join [TAB] [''chr1'', ''.'', ''gene'', ''150'', ''180'', ''.'', ''+'', ''.'', ''ID=g1''] @ [NL],
      join [TAB] [''chr1'', ''.'', ''exon'', ''90'', ''150'', ''.'', ''+'', ''.'', ''Parent=g1''] @ [NL]]"

text \<open>A header, a blank line, two genes, and a FASTA section.\<close>

definition conservation_gff :: "string list" where
  "conservation_gff =
     [''##gff-version 3'' @ [NL],
      [NL],
      join [TAB] [''chr1'', ''.'', ''gene'', ''150'', ''180'', ''.'', ''+'', ''.'', ''ID=g1''] @ [NL],
      join [TAB] [''chrX'', ''.'', ''gene'', ''10'', ''20'', ''.'', ''+'', ''.'', ''ID=g2''] @ [NL],
      ''##FASTA'' @ [NL],
      ''>chr1'' @ [NL],
      ''ACGT'' @ [NL]]"

text \<open>
  The first two passes of \<open>update\<close>, and the dispositions they leave for given lines.
\<close>

definition classify :: "alignment list \<Rightarrow> string list \<Rightarrow> error + upd_state" where
  "classify alignment_list gff =
     bind_e (find_root_features gff) (\<lambda>rs.
       update_features (alignment_dict_of alignment_list) rs gff)"

definition dispositions ::
  "alignment list \<Rightarrow> string list \<Rightarrow> nat list \<Rightarrow> error + status option list" where
  "dispositions alignment_list gff ks =
     bind_e (classify alignment_list gff) (\<lambda>u. Inr (map (gff_line_status_dict u) ks))"

text \<open>A gene on a sequence the table does not have, with a child on one it has.\<close>

definition mixed_gff :: "string list" where
  "mixed_gff =
     [join [TAB] [''chrX'', ''.'', ''gene'', ''10'', ''20'', ''.'', ''+'', ''.'', ''ID=g1''] @ [NL],
      join [TAB] [''chr1'', ''.'', ''exon'', ''90'', ''150'', ''.'', ''+'', ''.'', ''Parent=g1''] @ [NL]]"

text \<open>Two rows that overlap on the old sequence, and a gene inside the overlap.\<close>

definition overlap_first :: alignment where
  "overlap_first = \<lparr>old_id = ''chr1'', old_start = 100, old_end = 200,
                      new_id = ''chr1_new'', new_start = 1000, new_end = 1100\<rparr>"

definition overlap_second :: alignment where
  "overlap_second = \<lparr>old_id = ''chr1'', old_start = 140, old_end = 300,
                       new_id = ''chr1_new'', new_start = 2000, new_end = 2160\<rparr>"

definition ambiguous_gff :: "string list" where
  "ambiguous_gff =
     [join [TAB] [''chr1'', ''.'', ''gene'', ''150'', ''180'', ''.'', ''+'', ''.'', ''ID=g1''] @ [NL],
      join [TAB] [''chr1'', ''.'', ''exon'', ''160'', ''170'', ''.'', ''+'', ''.'', ''Parent=g1''] @ [NL]]"

text \<open>A file whose third line declares \<open>ID=g1\<close> and names \<open>g1\<close> as its own parent.\<close>

definition self_parent_gff :: "string list" where
  "self_parent_gff =
     [join [TAB] [''chr1'', ''.'', ''gene'', ''150'', ''180'', ''.'', ''+'', ''.'', ''ID=g1''] @ [NL],
      join [TAB] [''chr1'', ''.'', ''gene'', ''250'', ''280'', ''.'', ''+'', ''.'', ''ID=g1''] @ [NL],
      join [TAB] [''chr1'', ''.'', ''exon'', ''250'', ''260'', ''.'', ''+'', ''.'',
                  ''ID=g1;Parent=g1''] @ [NL]]"

text \<open>An open stream whose only line has \<open>abc\<close> where \<open>old_end\<close> should be.\<close>

definition bad_stream :: py_file where
  "bad_stream =
     \<lparr>file_name = ''<stdin>'',
      pending = [join [TAB] [''chr1'', ''100'', ''abc'', ''chr1_new'', ''1000'', ''1100''] @ [NL]],
      closed = False\<rparr>"

text \<open>
  Column 1 of the converted text of line \<open>lc\<close>, when the line is KEEP: the \<open>Scaffold\<close> of
  line 214.
\<close>

definition keep_scaffold :: "upd_state \<Rightarrow> nat \<Rightarrow> string option" where
  "keep_scaffold u lc =
     (if gff_line_status_dict u lc = Some KEEP
      then map_option (\<lambda>conv. hd (split_on TAB conv)) (gff_converted_line_dict u lc)
      else None)"

text \<open>
  What the third pass is expected to write to the updated file when it reaches line \<open>lc\<close>:
  for a KEEP line its converted text, preceded by the region line of its column 1 when no
  earlier KEEP line has that column 1; for a HEADER line its text; nothing otherwise.
\<close>

definition written_for :: "(string \<rightharpoonup> string) \<Rightarrow> upd_state \<Rightarrow> nat \<Rightarrow> string list" where
  "written_for sequence_regions u lc =
     (case gff_line_status_dict u lc of
        Some KEEP \<Rightarrow>
          (case keep_scaffold u lc of
             None \<Rightarrow> []
           | Some x \<Rightarrow> if \<exists>j < lc. keep_scaffold u j = Some x then []
                       else [the (sequence_regions x)])
          @ [the (gff_converted_line_dict u lc)]
      | Some HEADER \<Rightarrow> [the (gff_converted_line_dict u lc)]
      | _ \<Rightarrow> [])"

text \<open>
  The new coordinates of the rows of new sequence \<open>x\<close>, and the region lines expected for a
  table: one for every \<open>new_id\<close> in it, from the least coordinate plus one to the greatest.
\<close>

definition new_coords :: "alignment list \<Rightarrow> string \<Rightarrow> int list" where
  "new_coords al x =
     concat (map (\<lambda>a. [new_start a, new_end a]) (filter (\<lambda>a. new_id a = x) al))"

definition expected_regions ::
  "alignment list \<Rightarrow> (string \<rightharpoonup> string) \<Rightarrow> (string \<rightharpoonup> string)" where
  "expected_regions al d =
     (\<lambda>x. if x \<in> new_id ` set al
          then Some (region_line x (Min (set (new_coords al x)) + 1) (Max (set (new_coords al x))))
          else d x)"

text \<open>
  What the second pass keeps true of the converted texts: that of a KEEP line contains a
  tab, that of a HEADER line does not begin with \<open>##sequence-region\<close>.
\<close>

definition conv_ok :: "upd_state \<Rightarrow> bool" where
  "conv_ok s =
     (\<forall>k. (gff_line_status_dict s k = Some KEEP \<longrightarrow>
             (\<exists>c. gff_converted_line_dict s k = Some c \<and> TAB \<in> set c))
        \<and> (gff_line_status_dict s k = Some HEADER \<longrightarrow>
             (\<exists>c. gff_converted_line_dict s k = Some c
                  \<and> \<not> startswith (strip c) ''##sequence-region'')))"

text \<open>
  A table with two records for the same new id, and an annotation file with an old
  \<open>##sequence-region\<close> line and two features that both map to that id.
\<close>

definition region_alignments :: "alignment list" where
  "region_alignments =
     [\<lparr>old_id = ''chr1'', old_start = 100, old_end = 200,
       new_id = ''chr1_new'', new_start = 1000, new_end = 1100\<rparr>,
      \<lparr>old_id = ''chr1'', old_start = 300, old_end = 400,
       new_id = ''chr1_new'', new_start = 2000, new_end = 2100\<rparr>]"

definition region_gff :: "string list" where
  "region_gff =
     [''##gff-version 3'' @ [NL],
      ''##sequence-region chr1 1 500'' @ [NL],
      join [TAB] [''chr1'', ''.'', ''gene'', ''150'', ''180'', ''.'', ''+'', ''.'', ''ID=g1''] @ [NL],
      join [TAB] [''chr1'', ''.'', ''gene'', ''350'', ''380'', ''.'', ''+'', ''.'', ''ID=g2''] @ [NL]]"

section \<open>Properties of the model\<close>

subsection \<open>Coverage of a coordinate by a row\<close>

theorem covering_old_end_counterexample:
  "degenerate_alignment \<notin> set (covering (old_end degenerate_alignment) [degenerate_alignment])"
  by (simp add: covering_def degenerate_alignment_def)

text \<open>
  C2, amended. Among the rows of an old id, the filter of lines 162 and 163 keeps row \<open>m\<close>
  for coordinate \<open>p\<close> exactly when \<open>old_start m < p\<close> and \<open>p \<le> old_end m\<close>. A coordinate equal
  to \<open>old_start m\<close> is never kept for \<open>m\<close>; a coordinate equal to \<open>old_end m\<close> is kept for \<open>m\<close>
  when the row's interval is not empty (\<open>old_start m < old_end m\<close>).
\<close>

theorem covering_iff:
  "(m \<in> set (covering p ms) \<longleftrightarrow> m \<in> set ms \<and> old_start m < p \<and> p \<le> old_end m)
   \<and> m \<notin> set (covering (old_start m) ms)
   \<and> (m \<in> set ms \<and> old_start m < old_end m \<longrightarrow> m \<in> set (covering (old_end m) ms))"
  by (simp add: covering_def)

theorem covering_iff_witness:
  "example_alignment \<in> set [example_alignment]
   \<and> old_start example_alignment < old_end example_alignment
   \<and> example_alignment \<in> set (covering (old_end example_alignment) [example_alignment])"
  using covering_iff [of example_alignment 200 "[example_alignment]"]
  by (simp add: example_alignment_def)

subsection \<open>Rewriting one feature line\<close>

lemma update_feature_mapped:
  assumes "adict (hd (split_on TAB line)) = Some mappings"
    and "nth_py (split_on TAB line) 3 = Inr t3" and "py_int t3 = Inr start"
    and "nth_py (split_on TAB line) 4 = Inr t4" and "py_int t4 = Inr end'"
    and "covering start mappings = [sm]" and "covering end' mappings = [em]"
  shows "update_feature adict roots groups line s =
     Inr (s\<lparr>gff_line_status_dict := (gff_line_status_dict s)(line_num s \<mapsto> KEEP),
            gff_converted_line_dict := (gff_converted_line_dict s)(line_num s \<mapsto>
              join [TAB] ((split_on TAB line)
                 [0 := new_id (hd mappings),
                  3 := py_str (start - old_start sm + new_start sm),
                  4 := py_str (end' - old_start em + new_start em)]))\<rparr>)"
proof -
  from assms(6) have "mappings \<noteq> []" by (auto simp: covering_def)
  then have m0: "nth_py mappings 0 = Inr (hd mappings)"
    by (cases mappings) (simp_all add: nth_py_def)
  show ?thesis
    using assms m0 by (simp add: update_feature_def bind_e_def nth_py_def Let_def)
qed

text \<open>
  C4. With the single row \<open>("chr1", 100, 200, "chr1_new", 1000, 1100)\<close> and the feature
  line \<open>chr1 . gene 150 180 . + . ID=g1\<close> (tab separated), the updated file receives
  \<open>##sequence-region chr1_new 1001 1100\<close> once and then
  \<open>chr1_new . gene 1050 1080 . + . ID=g1\<close>, and nothing is removed. In general, when
  exactly one row \<open>sm\<close> covers the start and exactly one row \<open>em\<close> covers the end, the line is
  KEEP and its columns 4 and 5 become \<open>start - old_start sm + new_start sm\<close> and
  \<open>end - old_start em + new_start em\<close>.
\<close>

theorem end_to_end_example:
  "map_sum id (\<lambda>s. (updated_file s, removed_file s))
       (update [example_alignment] [example_feature]) =
     Inr ([''##sequence-region chr1_new 1001 1100'' @ [NL],
           join [TAB] [''chr1_new'', ''.'', ''gene'', ''1050'', ''1080'', ''.'', ''+'', ''.'',
                       ''ID=g1'']], [])
   \<and> (adict (hd (split_on TAB line)) = Some mappings
        \<and> nth_py (split_on TAB line) 3 = Inr t3 \<and> py_int t3 = Inr start
        \<and> nth_py (split_on TAB line) 4 = Inr t4 \<and> py_int t4 = Inr end'
        \<and> covering start mappings = [sm] \<and> covering end' mappings = [em]
      \<longrightarrow> (\<exists>s'. update_feature adict roots groups line s = Inr s'
             \<and> gff_line_status_dict s' (line_num s) = Some KEEP
             \<and> gff_converted_line_dict s' (line_num s) =
                 Some (join [TAB] ((split_on TAB line)
                   [0 := new_id (hd mappings),
                    3 := py_str (start - old_start sm + new_start sm),
                    4 := py_str (end' - old_start em + new_start em)]))))"
proof (intro conjI impI)
  show "map_sum id (\<lambda>s. (updated_file s, removed_file s))
       (update [example_alignment] [example_feature]) =
     Inr ([''##sequence-region chr1_new 1001 1100'' @ [NL],
           join [TAB] [''chr1_new'', ''.'', ''gene'', ''1050'', ''1080'', ''.'', ''+'', ''.'',
                       ''ID=g1'']], [])"
    by code_simp
next
  assume h: "adict (hd (split_on TAB line)) = Some mappings
        \<and> nth_py (split_on TAB line) 3 = Inr t3 \<and> py_int t3 = Inr start
        \<and> nth_py (split_on TAB line) 4 = Inr t4 \<and> py_int t4 = Inr end'
        \<and> covering start mappings = [sm] \<and> covering end' mappings = [em]"
  then have "update_feature adict roots groups line s =
     Inr (s\<lparr>gff_line_status_dict := (gff_line_status_dict s)(line_num s \<mapsto> KEEP),
            gff_converted_line_dict := (gff_converted_line_dict s)(line_num s \<mapsto>
              join [TAB] ((split_on TAB line)
                 [0 := new_id (hd mappings),
                  3 := py_str (start - old_start sm + new_start sm),
                  4 := py_str (end' - old_start em + new_start em)]))\<rparr>)"
    by (elim conjE) (rule update_feature_mapped; assumption)
  then show "\<exists>s'. update_feature adict roots groups line s = Inr s'
             \<and> gff_line_status_dict s' (line_num s) = Some KEEP
             \<and> gff_converted_line_dict s' (line_num s) =
                 Some (join [TAB] ((split_on TAB line)
                   [0 := new_id (hd mappings),
                    3 := py_str (start - old_start sm + new_start sm),
                    4 := py_str (end' - old_start em + new_start em)]))"
    by simp
qed

theorem end_to_end_example_witness:
  "alignment_dict_of [example_alignment] (hd (split_on TAB example_feature))
       = Some [example_alignment]
   \<and> nth_py (split_on TAB example_feature) 3 = Inr ''150'' \<and> py_int ''150'' = Inr 150
   \<and> nth_py (split_on TAB example_feature) 4 = Inr ''180'' \<and> py_int ''180'' = Inr 180
   \<and> covering 150 [example_alignment] = [example_alignment]
   \<and> covering 180 [example_alignment] = [example_alignment]
   \<and> (\<exists>s'. update_feature (alignment_dict_of [example_alignment]) [0] (\<lambda>_. [0])
              example_feature upd_init = Inr s'
          \<and> gff_line_status_dict s' 0 = Some KEEP
          \<and> gff_converted_line_dict s' 0 =
              Some (join [TAB] [''chr1_new'', ''.'', ''gene'', ''1050'', ''1080'', ''.'', ''+'',
                                ''.'', ''ID=g1'']))"
proof -
  have h: "alignment_dict_of [example_alignment] (hd (split_on TAB example_feature))
       = Some [example_alignment]
   \<and> nth_py (split_on TAB example_feature) 3 = Inr ''150'' \<and> py_int ''150'' = Inr 150
   \<and> nth_py (split_on TAB example_feature) 4 = Inr ''180'' \<and> py_int ''180'' = Inr 180
   \<and> covering 150 [example_alignment] = [example_alignment]
   \<and> covering 180 [example_alignment] = [example_alignment]"
    by code_simp
  have v: "join [TAB] ((split_on TAB example_feature)
                   [0 := new_id (hd [example_alignment]),
                    3 := py_str (150 - old_start example_alignment + new_start example_alignment),
                    4 := py_str (180 - old_start example_alignment + new_start example_alignment)])
        = join [TAB] [''chr1_new'', ''.'', ''gene'', ''1050'', ''1080'', ''.'', ''+'',
                                ''.'', ''ID=g1'']"
    by code_simp
  have n: "line_num upd_init = 0" by (simp add: upd_init_def)
  from end_to_end_example
      [where adict = "alignment_dict_of [example_alignment]" and line = example_feature
         and mappings = "[example_alignment]" and ?t3.0 = "''150''" and start = 150
         and ?t4.0 = "''180''" and end' = 180 and sm = example_alignment
         and em = example_alignment and roots = "[0]" and groups = "\<lambda>_. [0]"
         and s = upd_init, THEN conjunct2, THEN mp, OF h]
  show ?thesis using h unfolding v n by blast
qed

text \<open>
  C1. On the rows \<open>("chr1", 0, 100, "A", 0, 100)\<close> and \<open>("chr1", 100, 200, "B", 0, 100)\<close>
  the feature \<open>chr1 150 180\<close> has start and end covered by the second row only, whose
  \<open>new_id\<close> is \<open>B\<close>; line 169 takes \<open>mappings[0][3]\<close>, the first row of the old id, and the
  line is written under \<open>A\<close> with the coordinates 50 and 80 computed from the second row.
\<close>

theorem new_id_taken_from_first_record:
  "covering 150 [split_first, split_second] = [split_second]
   \<and> covering 180 [split_first, split_second] = [split_second]
   \<and> new_id split_second = ''B''
   \<and> alignment_dict_of [split_first, split_second] ''chr1'' = Some [split_first, split_second]
   \<and> map_sum id updated_file (update [split_first, split_second] [example_feature]) =
       Inr [''##sequence-region A 1 100'' @ [NL],
            join [TAB] [''A'', ''.'', ''gene'', ''50'', ''80'', ''.'', ''+'', ''.'', ''ID=g1'']]"
  by code_simp

subsection \<open>The loader\<close>

text \<open>
  C8. Given a path, the loader raises AttributeError at line 71 (\<open>.name\<close> of a \<open>str\<close>)
  before it opens anything, whatever the file system holds.
\<close>

theorem loader_path_raises:
  "read_alignment_list_tsv fs (Path p) = Inl AttributeError"
  by (simp add: read_alignment_list_tsv_def name_of_def bind_e_def)

lemma py_int_error: "py_int t = Inl e \<Longrightarrow> e = ValueError"
  by (auto simp: py_int_def Let_def split: if_splits)

lemma conv_int_cases: "conv_int t = Inl ValueError \<and> py_int t = Inl ValueError \<or> (\<exists>i. conv_int t = Inr (PyInt i) \<and> py_int t = Inr i)"
  by (cases "py_int t") (auto simp: conv_int_def bind_e_def dest: py_int_error)


lemma convert_fields_fmt:
  "convert_fields (zip (fmt_of flags) toks) =
     (if \<exists>i. i < length flags \<and> i < length toks \<and> flags ! i \<and> py_int (toks ! i) = Inl ValueError
      then Inl ValueError
      else Inr (map (\<lambda>(b, t). if b then PyInt (projr (py_int t)) else PyStr t) (zip flags toks)))"
proof (induction flags arbitrary: toks)
  case Nil
  then show ?case by (simp add: fmt_of_def)
next
  case (Cons b flags)
  show ?case
  proof (cases toks)
    case Nil
    then show ?thesis by (simp add: fmt_of_def)
  next
    case (Cons t ts)
    have IH: "convert_fields (zip (fmt_of flags) ts) =
     (if \<exists>i. i < length flags \<and> i < length ts \<and> flags ! i \<and> py_int (ts ! i) = Inl ValueError
      then Inl ValueError
      else Inr (map (\<lambda>(b, t). if b then PyInt (projr (py_int t)) else PyStr t) (zip flags ts)))"
      by (rule Cons.IH)
    have ex: "(\<exists>i. i < length (b # flags) \<and> i < length toks \<and> (b # flags) ! i \<and> py_int (toks ! i) = Inl ValueError)
        \<longleftrightarrow> (b \<and> py_int t = Inl ValueError) \<or>
            (\<exists>i. i < length flags \<and> i < length ts \<and> flags ! i \<and> py_int (ts ! i) = Inl ValueError)"
      (is "?L \<longleftrightarrow> ?A \<or> ?B")
    proof
      assume ?L
      then obtain i where i: "i < length (b # flags)" "i < length toks" "(b # flags) ! i"
        "py_int (toks ! i) = Inl ValueError" by blast
      show "?A \<or> ?B"
      proof (cases i)
        case 0
        with i Cons show ?thesis by simp
      next
        case (Suc k)
        with i Cons have "k < length flags \<and> k < length ts \<and> flags ! k \<and> py_int (ts ! k) = Inl ValueError"
          by simp
        then show ?thesis by blast
      qed
    next
      assume "?A \<or> ?B"
      then show ?L
      proof
        assume ?A
        then have "0 < length (b # flags) \<and> 0 < length toks \<and> (b # flags) ! 0 \<and> py_int (toks ! 0) = Inl ValueError"
          using Cons by simp
        then show ?L by blast
      next
        assume ?B
        then obtain k where "k < length flags \<and> k < length ts \<and> flags ! k \<and> py_int (ts ! k) = Inl ValueError"
          by blast
        then have "Suc k < length (b # flags) \<and> Suc k < length toks \<and> (b # flags) ! Suc k \<and> py_int (toks ! Suc k) = Inl ValueError"
          using Cons by simp
        then show ?L by blast
      qed
    qed
    have step: "convert_fields (zip (fmt_of (b # flags)) toks) =
        bind_e (if b then conv_int t else conv_str t)
          (\<lambda>v. bind_e (convert_fields (zip (fmt_of flags) ts)) (\<lambda>vs. Inr (v # vs)))"
      using Cons by (simp add: fmt_of_def)
    show ?thesis
    proof (cases "b \<and> py_int t = Inl ValueError")
      case True
      then show ?thesis unfolding step ex
        by (simp add: conv_int_def bind_e_def)
    next
      case False
      then have hd_ok: "(if b then conv_int t else conv_str t) =
          Inr (if b then PyInt (projr (py_int t)) else PyStr t)"
        using conv_int_cases [of t] by (auto simp: conv_str_def)
      show ?thesis unfolding step ex hd_ok IH using False Cons
        by (auto simp: bind_e_def)
    qed
  qed
qed

lemma tsv_format_flags: "tsv_format = fmt_of [False, True, True, False, True, True]"
  by (simp add: tsv_format_def fmt_of_def)

lemma flags_index:
  "(i < length [False, True, True, False, True, True] \<and> [False, True, True, False, True, True] ! i)
     \<longleftrightarrow> i \<in> {1, 2, 4, 5::nat}"
proof -
  have "i < 6 \<longleftrightarrow> i = 0 \<or> i = 1 \<or> i = 2 \<or> i = 3 \<or> i = 4 \<or> i = 5" by arith
  then show ?thesis by auto
qed

lemma parse_row_result:
  "parse_row line =
     (if \<exists>i. i < length (split_on TAB line) \<and> i \<in> {1, 2, 4, 5}
              \<and> py_int (split_on TAB line ! i) = Inl ValueError
      then Inl ValueError
      else Inr (map (\<lambda>(b, t). if b then PyInt (projr (py_int t)) else PyStr t)
                 (zip [False, True, True, False, True, True] (split_on TAB line))))"
proof -
  have "(\<exists>i. i < length [False, True, True, False, True, True] \<and> i < length (split_on TAB line)
            \<and> [False, True, True, False, True, True] ! i
            \<and> py_int (split_on TAB line ! i) = Inl ValueError)
      \<longleftrightarrow> (\<exists>i. i < length (split_on TAB line) \<and> i \<in> {1, 2, 4, 5}
              \<and> py_int (split_on TAB line ! i) = Inl ValueError)"
    using flags_index by blast
  then show ?thesis
    unfolding parse_row_def tsv_format_flags convert_fields_fmt by simp
qed


lemma parse_rows_result:
  "parse_rows ls =
     (if \<exists>l \<in> set ls. bad_coordinate l then Inl ValueError
      else Inr (map (\<lambda>l. map (\<lambda>(b, t). if b then PyInt (projr (py_int t)) else PyStr t)
                 (zip [False, True, True, False, True, True] (split_on TAB l))) ls))"
  by (induction ls) (auto simp: parse_row_result bad_coordinate_def bind_e_def)

theorem loader_accepts_other_field_counts:
  "read_alignment_list_tsv Map.empty (File example_stream) =
     Inr ([[PyStr ''chr1'', PyInt 100, PyInt 200, PyStr ''chr1_new'', PyInt 1000, PyInt 1100],
           [PyStr ''chr1'', PyInt 100]],
          \<lparr>file_name = ''<stdin>'', pending = [], closed = False\<rparr>)"
  by code_simp

text \<open>
  C9, amended. Reading an open stream, a line with a coordinate field (second, third,
  fifth or sixth, when present) that is not an integer literal makes the whole load fail
  with ValueError. Without such a line the load succeeds whatever the field counts are:
  every line gives a row of its first six fields, shorter when the line is shorter.
\<close>

theorem loader_malformed_record:
  "\<not> closed f \<Longrightarrow>
   (if \<exists>l \<in> set (pending f). bad_coordinate l
    then read_alignment_list_tsv fs (File f) = Inl ValueError
    else \<exists>rows. read_alignment_list_tsv fs (File f) = Inr (rows, f\<lparr>pending := []\<rparr>)
           \<and> map length rows = map (\<lambda>l. min 6 (length (split_on TAB l))) (pending f))"
  by (auto simp: read_alignment_list_tsv_def bind_e_def name_of_def parse_rows_result Let_def
           cong: map_cong)

theorem loader_malformed_record_witness:
  "\<not> closed bad_stream
   \<and> py_int (split_on TAB (hd (pending bad_stream)) ! 2) = Inl ValueError
   \<and> (\<exists>l \<in> set (pending bad_stream). bad_coordinate l)
   \<and> read_alignment_list_tsv Map.empty (File bad_stream) = Inl ValueError
   \<and> \<not> closed example_stream
   \<and> \<not> (\<exists>l \<in> set (pending example_stream). bad_coordinate l)
   \<and> (\<exists>rows. read_alignment_list_tsv Map.empty (File example_stream)
                = Inr (rows, example_stream\<lparr>pending := []\<rparr>)
         \<and> map length rows = [6, 2])"
proof -
  have cb: "\<not> closed bad_stream" by (simp add: bad_stream_def)
  have field: "2 < length (split_on TAB (hd (pending bad_stream)))
     \<and> py_int (split_on TAB (hd (pending bad_stream)) ! 2) = Inl ValueError"
    by code_simp
  then have "bad_coordinate (hd (pending bad_stream))"
    unfolding bad_coordinate_def by (intro exI [of _ 2]) simp
  moreover have "hd (pending bad_stream) \<in> set (pending bad_stream)"
    by (simp add: bad_stream_def)
  ultimately have ex: "\<exists>l \<in> set (pending bad_stream). bad_coordinate l" by blast
  have fail: "read_alignment_list_tsv Map.empty (File bad_stream) = Inl ValueError"
    using loader_malformed_record [OF cb, of Map.empty] ex by simp
  have c: "\<not> closed example_stream" by (simp add: example_stream_def)
  have l: "map (\<lambda>l. min 6 (length (split_on TAB l))) (pending example_stream) = [6, 2]"
    by code_simp
  have ok: "read_alignment_list_tsv Map.empty (File example_stream) \<noteq> Inl ValueError"
    by code_simp
  have nb: "\<not> (\<exists>l \<in> set (pending example_stream). bad_coordinate l)"
    using loader_malformed_record [OF c, of Map.empty] ok by (auto split: if_splits)
  have good: "\<exists>rows. read_alignment_list_tsv Map.empty (File example_stream)
                = Inr (rows, example_stream\<lparr>pending := []\<rparr>)
         \<and> map length rows = [6, 2]"
    using loader_malformed_record [OF c, of Map.empty] nb unfolding l by auto
  from cb field ex fail c nb good show ?thesis by blast
qed

subsection \<open>The first pass: what the root list and the groups hold\<close>

lemma add_line_simps [simp]:
  "gff_line_root_list (add_line r n s) = gff_line_root_list s @ [r]"
  "gff_root_line_dict (add_line r n s) = (gff_root_line_dict s)(r := gff_root_line_dict s r @ [n])"
  "gff_id_line (add_line r n s) = gff_id_line s"
  "current_line_num (add_line r n s) = current_line_num s"
  "has_fasta (add_line r n s) = has_fasta s"
  "feature_count (add_line r n s) = feature_count s"
  by (simp_all add: add_line_def)

lemma find_root_step_blank: "is_blank line \<Longrightarrow> find_root_step line s = Inr (Next s)"
  by (simp add: find_root_step_def is_blank_def)

lemma find_root_step_fasta:
  "\<not> is_blank line \<Longrightarrow> is_fasta line \<Longrightarrow>
   find_root_step line s =
     Inr (Stop ((add_line (current_line_num s) (current_line_num s) s)\<lparr>has_fasta := True\<rparr>))"
  by (simp add: find_root_step_def is_blank_def is_fasta_def is_comment_def Let_def)

lemma find_root_step_comment:
  "\<not> is_blank line \<Longrightarrow> is_comment line \<Longrightarrow> \<not> is_fasta line \<Longrightarrow>
   find_root_step line s =
     Inr (Next ((add_line (current_line_num s) (current_line_num s) s)
                  \<lparr>current_line_num := current_line_num s + 1\<rparr>))"
  by (simp add: find_root_step_def is_blank_def is_fasta_def is_comment_def Let_def)

lemma find_root_step_feature:
  assumes "\<not> is_blank line" "\<not> is_comment line" "find_root_step line s = Inr c"
  shows "\<exists>r idl'. c = Next ((add_line r (current_line_num s) (s\<lparr>gff_id_line := idl'\<rparr>))
                     \<lparr>feature_count := feature_count s + 1,
                       current_line_num := current_line_num s + 1\<rparr>)
          \<and> idl' = (case attribute line ''ID'' of None \<Rightarrow> gff_id_line s
                      | Some i \<Rightarrow> (gff_id_line s)(i \<mapsto> current_line_num s))
          \<and> (case attribute line ''Parent'' of
                None \<Rightarrow> r = current_line_num s
              | Some p \<Rightarrow> (\<exists>j. idl' p = Some j \<and> j < length (gff_line_root_list s)
                              \<and> r = gff_line_root_list s ! j))"
proof -
  obtain a where a: "nth_py (split_on TAB line) 8 = Inr a"
    using assms by (cases "nth_py (split_on TAB line) 8")
      (auto simp: find_root_step_def is_blank_def is_comment_def bind_e_def)
  have attr: "\<And>key. attribute line key = dict_of (findall_attrs a) key"
    by (simp add: attribute_def a)
  show ?thesis
    using assms a
    by (cases "dict_of (findall_attrs a) ''ID''"; cases "dict_of (findall_attrs a) ''Parent''")
       (auto simp: find_root_step_def is_blank_def is_comment_def bind_e_def attr Let_def
             lookup_py_def nth_py_def add_line_def split: option.splits if_splits)
qed


lemma last_decl_snoc:
  "last_decl (seen @ [l]) x = (if declares l x then Some (length seen) else last_decl seen x)"
proof -
  have "filter (\<lambda>j. declares ((seen @ [l]) ! j) x) [0 ..< length seen]
        = filter (\<lambda>j. declares (seen ! j) x) [0 ..< length seen]"
    by (rule filter_cong) (auto simp: nth_append)
  then show ?thesis
    by (simp add: last_decl_def Let_def)
qed

lemma last_decl_Nil [simp]: "last_decl [] x = None"
  by (simp add: last_decl_def)



lemma last_decl_iff:
  "last_decl seen x = Some j \<longleftrightarrow>
     j < length seen \<and> declares (seen ! j) x
     \<and> (\<forall>j'. j < j' \<and> j' < length seen \<longrightarrow> \<not> declares (seen ! j') x)"
proof (induction seen rule: rev_induct)
  case Nil
  then show ?case by simp
next
  case (snoc l seen)
  let ?n = "length seen"
  have old: "\<And>i. i < ?n \<Longrightarrow> (seen @ [l]) ! i = seen ! i"
    by (simp add: nth_append)
  have new: "(seen @ [l]) ! ?n = l" by simp
  have len: "length (seen @ [l]) = Suc ?n" by simp
  show ?case
  proof (cases "declares l x")
    case True
    have "(j < Suc ?n \<and> declares ((seen @ [l]) ! j) x
     \<and> (\<forall>j'. j < j' \<and> j' < Suc ?n \<longrightarrow> \<not> declares ((seen @ [l]) ! j') x))
       \<longleftrightarrow> j = ?n" (is "?R \<longleftrightarrow> _")
    proof
      assume r: ?R
      show "j = ?n"
      proof (rule ccontr)
        assume "j \<noteq> ?n"
        with r have "j < ?n" by simp
        with r have "\<not> declares ((seen @ [l]) ! ?n) x" by blast
        with True new show False by simp
      qed
    next
      assume "j = ?n"
      with True new show ?R by auto
    qed
    then show ?thesis using True unfolding len by (auto simp: last_decl_snoc)
  next
    case False
    have "(j < Suc ?n \<and> declares ((seen @ [l]) ! j) x
     \<and> (\<forall>j'. j < j' \<and> j' < Suc ?n \<longrightarrow> \<not> declares ((seen @ [l]) ! j') x))
       \<longleftrightarrow> (j < ?n \<and> declares (seen ! j) x
     \<and> (\<forall>j'. j < j' \<and> j' < ?n \<longrightarrow> \<not> declares (seen ! j') x))" (is "?R \<longleftrightarrow> ?Q")
    proof
      assume r: ?R
      have jn: "j < ?n"
      proof (rule ccontr)
        assume "\<not> j < ?n"
        with r have "j = ?n" by simp
        with r new False show False by simp
      qed
      moreover have "declares (seen ! j) x" using r jn old by simp
      moreover have "\<forall>j'. j < j' \<and> j' < ?n \<longrightarrow> \<not> declares (seen ! j') x"
      proof (intro allI impI)
        fix j' assume h: "j < j' \<and> j' < ?n"
        then have "\<not> declares ((seen @ [l]) ! j') x" using r by simp
        with h old show "\<not> declares (seen ! j') x" by simp
      qed
      ultimately show ?Q by blast
    next
      assume q: ?Q
      have "\<forall>j'. j < j' \<and> j' < Suc ?n \<longrightarrow> \<not> declares ((seen @ [l]) ! j') x"
      proof (intro allI impI)
        fix j' assume h: "j < j' \<and> j' < Suc ?n"
        show "\<not> declares ((seen @ [l]) ! j') x"
        proof (cases "j' = ?n")
          case True
          with new False show ?thesis by simp
        next
          case False
          with h have "j' < ?n" by simp
          with h q old show ?thesis by simp
        qed
      qed
      with q old show ?R by simp
    qed
    then show ?thesis using False snoc unfolding len by (simp add: last_decl_snoc)
  qed
qed


lemma roots_ok_snoc:
  assumes ok: "roots_ok seen roots"
    and c: "is_comment l \<Longrightarrow> r = length seen"
    and f: "\<not> is_comment l \<Longrightarrow> r = length seen \<or> (r < length seen \<and> \<not> is_comment (seen ! r))"
  shows "roots_ok (seen @ [l]) (roots @ [r])"
proof -
  let ?n = "length seen"
  from ok have len: "length roots = ?n" by (simp add: roots_ok_def)
  have "\<forall>k < length (seen @ [l]).
           if is_comment ((seen @ [l]) ! k) then (roots @ [r]) ! k = k
           else (roots @ [r]) ! k \<le> k \<and> \<not> is_comment ((seen @ [l]) ! ((roots @ [r]) ! k))"
  proof (intro allI impI)
    fix k assume k: "k < length (seen @ [l])"
    show "if is_comment ((seen @ [l]) ! k) then (roots @ [r]) ! k = k
           else (roots @ [r]) ! k \<le> k \<and> \<not> is_comment ((seen @ [l]) ! ((roots @ [r]) ! k))"
    proof (cases "k < ?n")
      case True
      then have a: "(seen @ [l]) ! k = seen ! k" "(roots @ [r]) ! k = roots ! k"
        using len by (simp_all add: nth_append)
      from ok True have b: "if is_comment (seen ! k) then roots ! k = k
           else roots ! k \<le> k \<and> \<not> is_comment (seen ! (roots ! k))"
        by (simp add: roots_ok_def)
      show ?thesis
      proof (cases "is_comment (seen ! k)")
        case True
        with a b show ?thesis by simp
      next
        case False
        with b have rk: "roots ! k \<le> k" "\<not> is_comment (seen ! (roots ! k))" by simp_all
        with True have "(seen @ [l]) ! (roots ! k) = seen ! (roots ! k)"
          by (simp add: nth_append)
        with a False rk show ?thesis by simp
      qed
    next
      case False
      with k have kn: "k = ?n" by simp
      then have a: "(seen @ [l]) ! k = l" "(roots @ [r]) ! k = r"
        using len by (simp_all add: nth_append)
      show ?thesis
      proof (cases "is_comment l")
        case True
        with a c kn show ?thesis by simp
      next
        case False
        from f [OF False] show ?thesis
        proof
          assume "r = ?n"
          with a False kn show ?thesis by simp
        next
          assume h: "r < ?n \<and> \<not> is_comment (seen ! r)"
          then have "(seen @ [l]) ! r = seen ! r" by (simp add: nth_append)
          with a False kn h show ?thesis by simp
        qed
      qed
    qed
  qed
  then show ?thesis using len by (simp add: roots_ok_def)
qed

lemma groups_ok_snoc:
  assumes "groups_ok roots groups"
  shows "groups_ok (roots @ [r]) (groups(r := groups r @ [length roots]))"
proof -
  have eq: "\<And>q. filter (\<lambda>l. (roots @ [r]) ! l = q) [0 ..< length roots]
                = filter (\<lambda>l. roots ! l = q) [0 ..< length roots]"
    by (rule filter_cong) (simp_all add: nth_append)
  have "\<And>q. (groups(r := groups r @ [length roots])) q
           = filter (\<lambda>l. (roots @ [r]) ! l = q) [0 ..< length (roots @ [r])]"
  proof -
    fix q
    have g: "groups q = filter (\<lambda>l. roots ! l = q) [0 ..< length roots]"
      using assms by (simp add: groups_ok_def)
    show "(groups(r := groups r @ [length roots])) q
           = filter (\<lambda>l. (roots @ [r]) ! l = q) [0 ..< length (roots @ [r])]"
      using g by (cases "q = r") (simp_all add: eq)
  qed
  then show ?thesis by (simp add: groups_ok_def)
qed


lemma ids_ok_snoc:
  assumes "ids_ok seen idl"
  shows "ids_ok (seen @ [l])
           (if is_comment l then idl
            else case attribute l ''ID'' of None \<Rightarrow> idl | Some i \<Rightarrow> idl(i \<mapsto> length seen))"
proof -
  have "\<And>x. (if is_comment l then idl
            else case attribute l ''ID'' of None \<Rightarrow> idl | Some i \<Rightarrow> idl(i \<mapsto> length seen)) x
          = last_decl (seen @ [l]) x"
  proof -
    fix x
    have o: "idl x = last_decl seen x" using assms by (simp add: ids_ok_def)
    show "(if is_comment l then idl
            else case attribute l ''ID'' of None \<Rightarrow> idl | Some i \<Rightarrow> idl(i \<mapsto> length seen)) x
          = last_decl (seen @ [l]) x"
      by (cases "attribute l ''ID''") (simp_all add: last_decl_snoc declares_def o)
  qed
  then show ?thesis unfolding ids_ok_def by blast
qed

lemma parents_ok_snoc:
  assumes ok: "parents_ok seen roots" and len: "length roots = length seen"
    and new: "\<not> is_comment l \<Longrightarrow>
           (case attribute l ''Parent'' of
              None \<Rightarrow> r = length seen
            | Some p \<Rightarrow> (\<exists>j < length seen. last_decl seen p = Some j \<and> r = roots ! j))"
  shows "parents_ok (seen @ [l]) (roots @ [r])"
  unfolding parents_ok_def
proof (intro allI impI)
  fix k assume k: "k < length (seen @ [l])" and nc: "\<not> is_comment ((seen @ [l]) ! k)"
  show "case attribute ((seen @ [l]) ! k) ''Parent'' of
          None \<Rightarrow> (roots @ [r]) ! k = k
        | Some p \<Rightarrow> \<exists>j<k. last_decl (take k (seen @ [l])) p = Some j
                      \<and> (roots @ [r]) ! k = (roots @ [r]) ! j"
  proof (cases "k < length seen")
    case True
    then have a: "(seen @ [l]) ! k = seen ! k" "(roots @ [r]) ! k = roots ! k"
      "take k (seen @ [l]) = take k seen"
      using len by (simp_all add: nth_append)
    from ok True nc a have o:
      "case attribute (seen ! k) ''Parent'' of
          None \<Rightarrow> roots ! k = k
        | Some p \<Rightarrow> \<exists>j<k. last_decl (take k seen) p = Some j \<and> roots ! k = roots ! j"
      unfolding parents_ok_def by simp
    show ?thesis
    proof (cases "attribute (seen ! k) ''Parent''")
      case None
      with o a show ?thesis by simp
    next
      case (Some p)
      with o obtain j where j: "j < k" "last_decl (take k seen) p = Some j" "roots ! k = roots ! j"
        by auto
      with True len have "(roots @ [r]) ! j = roots ! j" by (simp add: nth_append)
      with j a Some show ?thesis by auto
    qed
  next
    case False
    with k have kk: "k = length seen" by simp
    then have a: "(seen @ [l]) ! k = l" "(roots @ [r]) ! k = r"
      "take k (seen @ [l]) = seen"
      using len by (simp_all add: nth_append)
    with nc have ncl: "\<not> is_comment l" by simp
    show ?thesis
    proof (cases "attribute l ''Parent''")
      case None
      with new [OF ncl] a kk show ?thesis by simp
    next
      case (Some p)
      with new [OF ncl] obtain j where j: "j < length seen" "last_decl seen p = Some j" "r = roots ! j"
        by auto
      with len have "(roots @ [r]) ! j = roots ! j" by (simp add: nth_append)
      with j a Some kk show ?thesis by auto
    qed
  qed
qed


lemma tree_inv_comment:
  assumes inv: "tree_inv seen s" and cur: "current_line_num s = length seen"
    and c: "is_comment l"
  shows "tree_inv (seen @ [l]) (add_line (current_line_num s) (current_line_num s) s)"
proof -
  from inv have len: "length (gff_line_root_list s) = length seen"
    by (simp add: tree_inv_def roots_ok_def)
  have 1: "roots_ok (seen @ [l]) (gff_line_root_list s @ [length seen])"
    using inv c by (intro roots_ok_snoc) (simp_all add: tree_inv_def)
  have 2: "groups_ok (gff_line_root_list s @ [length seen])
             ((gff_root_line_dict s)(length seen := gff_root_line_dict s (length seen) @ [length seen]))"
    using groups_ok_snoc [of "gff_line_root_list s" "gff_root_line_dict s" "length seen"] inv len
    by (simp add: tree_inv_def)
  have 3: "ids_ok (seen @ [l]) (gff_id_line s)"
    using ids_ok_snoc [of seen "gff_id_line s" l] inv c by (simp add: tree_inv_def)
  have 4: "parents_ok (seen @ [l]) (gff_line_root_list s @ [length seen])"
    using inv len c by (intro parents_ok_snoc) (simp_all add: tree_inv_def)
  show ?thesis using 1 2 3 4 cur by (simp add: tree_inv_def)
qed

lemma tree_inv_feature:
  assumes inv: "tree_inv seen s" and cur: "current_line_num s = length seen"
    and nb: "\<not> is_blank l" and nc: "\<not> is_comment l" and st: "find_root_step l s = Inr c"
  shows "\<exists>s'. c = Next s' \<and> current_line_num s' = Suc (length seen) \<and> tree_inv (seen @ [l]) s'"
proof -
  let ?n = "length seen"
  let ?roots = "gff_line_root_list s"
  from inv have len: "length ?roots = ?n" and rok: "roots_ok seen ?roots"
    and gok: "groups_ok ?roots (gff_root_line_dict s)" and iok: "ids_ok seen (gff_id_line s)"
    and pok: "parents_ok seen ?roots"
    by (simp_all add: tree_inv_def roots_ok_def)
  from find_root_step_feature [OF nb nc st] obtain r idl' where
    c: "c = Next ((add_line r (current_line_num s) (s\<lparr>gff_id_line := idl'\<rparr>))
                     \<lparr>feature_count := feature_count s + 1,
                       current_line_num := current_line_num s + 1\<rparr>)"
    and idl': "idl' = (case attribute l ''ID'' of None \<Rightarrow> gff_id_line s
                      | Some i \<Rightarrow> (gff_id_line s)(i \<mapsto> current_line_num s))"
    and par: "case attribute l ''Parent'' of
                None \<Rightarrow> r = current_line_num s
              | Some p \<Rightarrow> (\<exists>j. idl' p = Some j \<and> j < length ?roots \<and> r = ?roots ! j)"
    by blast
  have iok': "ids_ok (seen @ [l]) idl'"
    using ids_ok_snoc [OF iok, of l] nc idl' cur
    by (cases "attribute l ''ID''") simp_all
  have par': "case attribute l ''Parent'' of
              None \<Rightarrow> r = ?n
            | Some p \<Rightarrow> (\<exists>j < ?n. last_decl seen p = Some j \<and> r = ?roots ! j)"
  proof (cases "attribute l ''Parent''")
    case None
    with par cur show ?thesis by simp
  next
    case (Some p)
    with par obtain j where j: "idl' p = Some j" "j < length ?roots" "r = ?roots ! j" by auto
    from iok' j have "last_decl (seen @ [l]) p = Some j" by (simp add: ids_ok_def)
    with j len have "last_decl seen p = Some j"
      by (auto simp: last_decl_snoc split: if_splits)
    with j len Some show ?thesis by auto
  qed
  have rcase: "r = ?n \<or> (r < ?n \<and> \<not> is_comment (seen ! r))"
  proof (cases "attribute l ''Parent''")
    case None
    with par' show ?thesis by simp
  next
    case (Some p)
    with par' obtain j where j: "j < ?n" "last_decl seen p = Some j" "r = ?roots ! j" by auto
    from j have "declares (seen ! j) p" by (simp add: last_decl_iff)
    then have ncj: "\<not> is_comment (seen ! j)" by (simp add: declares_def)
    from rok j ncj have "?roots ! j \<le> j \<and> \<not> is_comment (seen ! (?roots ! j))"
      by (auto simp: roots_ok_def split: if_splits)
    with j show ?thesis by simp
  qed
  have 1: "roots_ok (seen @ [l]) (?roots @ [r])"
    using rok nc rcase by (intro roots_ok_snoc) simp_all
  have 2: "groups_ok (?roots @ [r]) ((gff_root_line_dict s)(r := gff_root_line_dict s r @ [?n]))"
    using groups_ok_snoc [OF gok, of r] len by simp
  have 4: "parents_ok (seen @ [l]) (?roots @ [r])"
    using pok len par' by (intro parents_ok_snoc) simp_all
  show ?thesis using c 1 2 iok' 4 cur by (simp add: tree_inv_def)
qed

lemma find_root_loop_inv:
  "tree_inv seen s \<Longrightarrow> current_line_num s = length seen \<Longrightarrow>
   for_lines find_root_step ls s = Inr s' \<Longrightarrow> tree_inv (seen @ numbered ls) s'"
proof (induction ls arbitrary: seen s)
  case Nil
  then show ?case by simp
next
  case (Cons l ls)
  show ?case
  proof (cases "is_blank l")
    case True
    with Cons.prems have "for_lines find_root_step ls s = Inr s'"
      by (simp add: find_root_step_blank)
    from Cons.IH [OF Cons.prems(1,2) this] True show ?thesis by simp
  next
    case nb: False
    show ?thesis
    proof (cases "is_comment l")
      case c: True
      have inv1: "tree_inv (seen @ [l]) (add_line (current_line_num s) (current_line_num s) s)"
        using Cons.prems(1,2) c by (rule tree_inv_comment)
      show ?thesis
      proof (cases "is_fasta l")
        case True
        with nb Cons.prems(3) have "s' = (add_line (current_line_num s) (current_line_num s) s)\<lparr>has_fasta := True\<rparr>"
          by (simp add: find_root_step_fasta)
        with inv1 nb True show ?thesis by (simp add: tree_inv_def)
      next
        case False
        let ?s1 = "(add_line (current_line_num s) (current_line_num s) s)
                  \<lparr>current_line_num := current_line_num s + 1\<rparr>"
        from nb c False Cons.prems(3) have run: "for_lines find_root_step ls ?s1 = Inr s'"
          by (simp add: find_root_step_comment)
        have i1: "tree_inv (seen @ [l]) ?s1" using inv1 by (simp add: tree_inv_def)
        have c1: "current_line_num ?s1 = length (seen @ [l])" using Cons.prems(2) by simp
        from Cons.IH [OF i1 c1 run] nb False show ?thesis by simp
      qed
    next
      case nc: False
      then have nf: "\<not> is_fasta l" by (simp add: is_fasta_def)
      obtain c where c: "find_root_step l s = Inr c"
        using Cons.prems(3) by (cases "find_root_step l s") simp_all
      from tree_inv_feature [OF Cons.prems(1,2) nb nc c] obtain s1 where
        s1: "c = Next s1" "current_line_num s1 = Suc (length seen)" "tree_inv (seen @ [l]) s1"
        by blast
      from Cons.prems(3) c s1 have run: "for_lines find_root_step ls s1 = Inr s'" by simp
      have c1: "current_line_num s1 = length (seen @ [l])" using s1 by simp
      from Cons.IH [OF s1(3) c1 run] nb nf show ?thesis by simp
    qed
  qed
qed

lemma tree_inv_init: "tree_inv [] root_init"
  by (simp add: tree_inv_def roots_ok_def groups_ok_def ids_ok_def parents_ok_def root_init_def)

lemma find_root_features_inv:
  "find_root_features gff = Inr rs \<Longrightarrow> tree_inv (numbered gff) rs"
  using find_root_loop_inv [OF tree_inv_init, of gff rs]
  by (simp add: find_root_features_def root_init_def)

subsection \<open>Redeclared identifiers\<close>

theorem self_parent_counterexample:
  "map_sum id gff_line_root_list (find_root_features self_parent_gff) = Inl IndexError
   \<and> declares (numbered self_parent_gff ! 0) ''g1''
   \<and> declares (numbered self_parent_gff ! 1) ''g1''
   \<and> \<not> is_comment (numbered self_parent_gff ! 2)
   \<and> attribute (numbered self_parent_gff ! 2) ''Parent'' = Some ''g1''"
  by code_simp

text \<open>
  C10, amended. In a file the first pass reads without error, a feature line \<open>k\<close> with
  \<open>Parent=x\<close> gets the root of line \<open>j\<close>, the last feature line before \<open>k\<close> that declares
  \<open>ID=x\<close>: \<open>gff_id_line\<close> is overwritten at each declaration, so earlier declarations of the
  same value are forgotten. (A line that declares \<open>ID=x\<close> and names \<open>x\<close> as its own parent
  makes line 118 look up the line itself, which has no root yet, and the pass raises
  IndexError.)
\<close>

theorem parent_inherits_last_declaration:
  assumes "find_root_features gff = Inr rs"
    and "k < length (numbered gff)" and "\<not> is_comment (numbered gff ! k)"
    and "attribute (numbered gff ! k) ''Parent'' = Some x"
    and "j < k" and "declares (numbered gff ! j) x"
    and "\<forall>j'. j < j' \<and> j' < k \<longrightarrow> \<not> declares (numbered gff ! j') x"
  shows "gff_line_root_list rs ! k = gff_line_root_list rs ! j"
proof -
  let ?N = "numbered gff"
  from find_root_features_inv [OF assms(1)] have "parents_ok ?N (gff_line_root_list rs)"
    by (simp add: tree_inv_def)
  with assms(2,3,4) obtain j0 where j0: "j0 < k" "last_decl (take k ?N) x = Some j0"
    "gff_line_root_list rs ! k = gff_line_root_list rs ! j0"
    unfolding parents_ok_def by fastforce
  have "last_decl (take k ?N) x = Some j"
    unfolding last_decl_iff using assms(2,5,6,7) by simp
  with j0 show ?thesis by simp
qed

theorem parent_inherits_last_declaration_witness:
  "\<exists>rs. find_root_features redeclared_gff = Inr rs
     \<and> 2 < length (numbered redeclared_gff) \<and> \<not> is_comment (numbered redeclared_gff ! 2)
     \<and> attribute (numbered redeclared_gff ! 2) ''Parent'' = Some ''g1''
     \<and> declares (numbered redeclared_gff ! 0) ''g1''
     \<and> declares (numbered redeclared_gff ! 1) ''g1''
     \<and> gff_line_root_list rs ! 2 = gff_line_root_list rs ! 1
     \<and> gff_line_root_list rs = [0, 1, 1]"
proof -
  have run: "case find_root_features redeclared_gff of
               Inl e \<Rightarrow> False | Inr rs \<Rightarrow> gff_line_root_list rs = [0, 1, 1]"
    by code_simp
  then obtain rs where rs: "find_root_features redeclared_gff = Inr rs"
    "gff_line_root_list rs = [0, 1, 1]"
    by (cases "find_root_features redeclared_gff") simp_all
  have h: "2 < length (numbered redeclared_gff) \<and> \<not> is_comment (numbered redeclared_gff ! 2)
     \<and> attribute (numbered redeclared_gff ! 2) ''Parent'' = Some ''g1''
     \<and> declares (numbered redeclared_gff ! 0) ''g1''
     \<and> declares (numbered redeclared_gff ! 1) ''g1''"
    by code_simp
  have between: "\<forall>j'. (1::nat) < j' \<and> j' < 2 \<longrightarrow> \<not> declares (numbered redeclared_gff ! j') ''g1''"
    by auto
  have "gff_line_root_list rs ! 2 = gff_line_root_list rs ! 1"
    using parent_inherits_last_declaration [OF rs(1), of 2 "''g1''" 1] h between by simp
  with rs h show ?thesis by blast
qed

subsection \<open>The second pass: one line\<close>

lemma mark_group_apply:
  "mark_group g v d k = (if k \<in> set g then Some v else d k)"
  unfolding mark_group_def
  by (induction g arbitrary: d) simp_all

lemma group_set:
  "groups_ok roots groups \<Longrightarrow> set (groups r) = {l. l < length roots \<and> roots ! l = r}"
  by (auto simp: groups_ok_def)

lemma group_members_features:
  assumes "roots_ok N roots" "n < length N" "\<not> is_comment (N ! n)"
    and "k < length N" "roots ! k = roots ! n"
  shows "\<not> is_comment (N ! k)"
proof
  assume c: "is_comment (N ! k)"
  from assms(1,4) c have "roots ! k = k" by (simp add: roots_ok_def)
  moreover from assms(1,2,3) have "\<not> is_comment (N ! (roots ! n))"
    by (auto simp: roots_ok_def split: if_splits)
  ultimately show False using assms(5) c by simp
qed

lemma bind_e_InrE:
  assumes "bind_e r f = Inr y"
  obtains v where "r = Inr v" "f v = Inr y"
  using assms by (cases r) (simp_all add: bind_e_def)

lemma update_feature_cases:
  assumes "update_feature adict roots groups line s = Inr s'"
  shows "(\<exists>v. (v = SEQUENCE_REMOVED \<or> v = POSITION_REMOVED) \<and> line_num s < length roots
            \<and> s' = s\<lparr>gff_line_status_dict :=
                      mark_group (groups (roots ! line_num s)) v (gff_line_status_dict s)\<rparr>)
       \<or> (\<exists>txt. s' = s\<lparr>gff_line_status_dict := (gff_line_status_dict s)(line_num s \<mapsto> KEEP),
                        gff_converted_line_dict := (gff_converted_line_dict s)(line_num s \<mapsto> txt)\<rparr>)"
proof (cases "adict (hd (split_on TAB line))")
  case None
  with assms show ?thesis
    by (auto simp: update_feature_def remove_group_def bind_e_def nth_py_def split: if_splits)
next
  case (Some mappings)
  from assms Some obtain t3 start t4 end' where
    p: "nth_py (split_on TAB line) 3 = Inr t3" "py_int t3 = Inr start"
       "nth_py (split_on TAB line) 4 = Inr t4" "py_int t4 = Inr end'"
    by (auto simp: update_feature_def Let_def elim!: bind_e_InrE)
  show ?thesis
  proof (cases "length (covering start mappings) \<noteq> 1 \<or> length (covering end' mappings) \<noteq> 1")
    case True
    with assms Some p have "remove_group roots groups POSITION_REMOVED s = Inr s'"
      by (simp add: update_feature_def bind_e_def Let_def)
    then show ?thesis
      by (auto simp: remove_group_def bind_e_def nth_py_def split: if_splits)
  next
    case False
    then obtain sm em where c: "covering start mappings = [sm]" "covering end' mappings = [em]"
      by (auto simp: length_Suc_conv)
    have "update_feature adict roots groups line s =
     Inr (s\<lparr>gff_line_status_dict := (gff_line_status_dict s)(line_num s \<mapsto> KEEP),
            gff_converted_line_dict := (gff_converted_line_dict s)(line_num s \<mapsto>
              join [TAB] ((split_on TAB line)
                 [0 := new_id (hd mappings),
                  3 := py_str (start - old_start sm + new_start sm),
                  4 := py_str (end' - old_start em + new_start em)]))\<rparr>)"
      using Some p c by (rule update_feature_mapped)
    with assms show ?thesis by auto
  qed
qed

lemma startswith_fasta: "\<not> startswith ''##FASTA'' ''##sequence-region''"
  by (simp add: startswith_def)

lemma append_line_simps [simp]:
  "gff_line_status_dict (append_line l s) = gff_line_status_dict s"
  "gff_converted_line_dict (append_line l s) = gff_converted_line_dict s"
  "gff_line_list (append_line l s) = gff_line_list s @ [l]"
  "line_num (append_line l s) = Suc (line_num s)"
  by (simp_all add: append_line_def)

lemma update_step_blank: "is_blank l \<Longrightarrow> update_step adict roots groups l s = Inr (Next s)"
  by (simp add: update_step_def is_blank_def)

lemma update_step_fasta:
  "\<not> is_blank l \<Longrightarrow> is_fasta l \<Longrightarrow>
   update_step adict roots groups l s =
     Inr (Stop (s\<lparr>gff_converted_line_dict := (gff_converted_line_dict s)(line_num s \<mapsto> l)\<rparr>))"
  by (simp add: update_step_def is_blank_def is_fasta_def is_comment_def Let_def startswith_fasta)

lemma update_step_comment:
  "\<not> is_blank l \<Longrightarrow> is_comment l \<Longrightarrow> \<not> is_fasta l \<Longrightarrow>
   \<exists>v. (v = HEADER \<or> v = SEQUENCE_REGION) \<and>
   update_step adict roots groups l s =
     Inr (Next (append_line l
       (s\<lparr>gff_converted_line_dict := (gff_converted_line_dict s)(line_num s \<mapsto> l),
          gff_line_status_dict := (gff_line_status_dict s)(line_num s \<mapsto> v)\<rparr>)))"
  by (cases "startswith (strip l) ''##sequence-region''")
     (auto simp: update_step_def is_blank_def is_fasta_def is_comment_def Let_def)

lemma update_step_feature:
  assumes "\<not> is_blank l" "\<not> is_comment l" "update_step adict roots groups l s = Inr c"
  shows "((gff_line_status_dict s (line_num s) = None
            \<or> gff_line_status_dict s (line_num s) = Some KEEP)
          \<and> (\<exists>s1. update_feature adict roots groups l s = Inr s1 \<and> c = Next (append_line l s1)))
       \<or> (gff_line_status_dict s (line_num s) \<noteq> None
           \<and> gff_line_status_dict s (line_num s) \<noteq> Some KEEP
           \<and> c = Next (append_line l s))"
  using assms
  by (auto simp: update_step_def is_blank_def is_comment_def elim!: bind_e_InrE split: if_splits)



lemma upd_invD:
  assumes "upd_inv N roots seen s"
  shows "line_num s = length seen" "gff_line_list s = seen"
    "\<And>k. is_removed (gff_line_status_dict s k) \<Longrightarrow> k < length N \<and> \<not> is_comment (N ! k)"
    "\<And>k k'. is_removed (gff_line_status_dict s k) \<Longrightarrow> k' < length N \<Longrightarrow> roots ! k' = roots ! k
                \<Longrightarrow> is_removed (gff_line_status_dict s k')"
    "\<And>k. k < length seen \<Longrightarrow> (if is_comment (N ! k)
            then gff_line_status_dict s k = Some HEADER \<or> gff_line_status_dict s k = Some SEQUENCE_REGION
            else gff_line_status_dict s k = Some KEEP \<or> is_removed (gff_line_status_dict s k))"
    "\<And>k. length seen \<le> k \<Longrightarrow> gff_line_status_dict s k = None \<or> is_removed (gff_line_status_dict s k)"
    "\<And>k. length seen \<le> k \<Longrightarrow> k < length N \<Longrightarrow> \<not> is_comment (N ! k)
                \<Longrightarrow> gff_converted_line_dict s k = None"
proof -
  note a = assms [unfolded upd_inv_def]
  show "line_num s = length seen" using a by (elim conjE)
  show "gff_line_list s = seen" using a by (elim conjE)
  show "\<And>k. is_removed (gff_line_status_dict s k) \<Longrightarrow> k < length N \<and> \<not> is_comment (N ! k)"
    using a by (elim conjE) (erule allE, erule mp)
qed (insert assms, unfold upd_inv_def, (elim conjE, blast)+)

lemma upd_inv_next:
  assumes inv: "upd_inv N roots seen s" and nxt: "N = seen @ l # rest"
    and ln: "line_num s' = Suc (length seen)" and ll: "gff_line_list s' = seen @ [l]"
    and cv: "\<forall>k. k \<noteq> length seen \<longrightarrow> gff_converted_line_dict s' k = gff_converted_line_dict s k"
    and G: "G = {} \<or> (\<not> is_comment l \<and> roots_ok N roots
                       \<and> \<not> is_removed (gff_line_status_dict s (length seen))
                       \<and> G = {k. k < length N \<and> roots ! k = roots ! length seen})"
    and inG: "\<forall>k \<in> G. is_removed (gff_line_status_dict s' k)"
    and out: "\<forall>k. k \<notin> G \<and> k \<noteq> length seen \<longrightarrow> gff_line_status_dict s' k = gff_line_status_dict s k"
    and cur: "length seen \<notin> G \<Longrightarrow>
        (if is_comment l
         then gff_line_status_dict s' (length seen) = Some HEADER
              \<or> gff_line_status_dict s' (length seen) = Some SEQUENCE_REGION
         else (gff_line_status_dict s' (length seen) = Some KEEP
               \<and> \<not> is_removed (gff_line_status_dict s (length seen)))
              \<or> (gff_line_status_dict s' (length seen) = gff_line_status_dict s (length seen)
                  \<and> is_removed (gff_line_status_dict s (length seen))))"
  shows "upd_inv N roots (seen @ [l]) s' \<and> keeps_decided s s'"
proof -
  let ?n = "length seen"
  let ?st = "gff_line_status_dict s" and ?st' = "gff_line_status_dict s'"
  have nN: "?n < length N" and Nn: "N ! ?n = l" using nxt by simp_all
  have tk: "take (Suc ?n) N = seen @ [l]" using nxt by simp
  note d = upd_invD [OF inv]
  have u2: "\<And>k. is_removed (?st k) \<Longrightarrow> k < length N \<and> \<not> is_comment (N ! k)" by (rule d(3))
  have u3: "\<And>k k'. is_removed (?st k) \<Longrightarrow> k' < length N \<Longrightarrow> roots ! k' = roots ! k
                \<Longrightarrow> is_removed (?st k')" by (rule d(4))
  have u45: "\<And>k. k < ?n \<Longrightarrow> (if is_comment (N ! k)
            then ?st k = Some HEADER \<or> ?st k = Some SEQUENCE_REGION
            else ?st k = Some KEEP \<or> is_removed (?st k))" by (rule d(5))
  have u6: "\<And>k. ?n \<le> k \<Longrightarrow> ?st k = None \<or> is_removed (?st k)" by (rule d(6))
  have u9: "\<And>k. ?n \<le> k \<Longrightarrow> k < length N \<Longrightarrow> \<not> is_comment (N ! k)
                \<Longrightarrow> gff_converted_line_dict s k = None" by (rule d(7))
  have lns: "line_num s = ?n" by (rule d(1))
  have Gfeat: "\<And>k. k \<in> G \<Longrightarrow> k < length N \<and> \<not> is_comment (N ! k) \<and> roots ! k = roots ! ?n"
  proof -
    fix k assume k: "k \<in> G"
    with G have g: "\<not> is_comment l" "roots_ok N roots" "k < length N" "roots ! k = roots ! ?n"
      by auto
    from group_members_features [OF g(2) nN _ g(3) g(4)] g(1) Nn g(3,4)
    show "k < length N \<and> \<not> is_comment (N ! k) \<and> roots ! k = roots ! ?n" by simp
  qed
  have Gclosed: "\<And>k k'. k \<in> G \<Longrightarrow> k' < length N \<Longrightarrow> roots ! k' = roots ! k \<Longrightarrow> k' \<in> G"
    using G by auto
  have GnotRemoved: "\<And>k. k \<in> G \<Longrightarrow> \<not> is_removed (?st k)"
  proof
    fix k assume k: "k \<in> G" and r: "is_removed (?st k)"
    from Gfeat [OF k] have "roots ! ?n = roots ! k" by simp
    from u3 [OF r nN this] G k show False by auto
  qed
  have curN: "?n \<notin> G \<Longrightarrow> is_removed (?st' ?n) \<longleftrightarrow> is_removed (?st ?n)"
  proof -
    assume a: "?n \<notin> G"
    show "is_removed (?st' ?n) \<longleftrightarrow> is_removed (?st ?n)"
    proof (cases "is_comment l")
      case True
      with cur [OF a] have "\<not> is_removed (?st' ?n)" by (auto simp: is_removed_def)
      moreover have "\<not> is_removed (?st ?n)" using u2 [of ?n] True Nn by auto
      ultimately show ?thesis by simp
    next
      case False
      with cur [OF a] show ?thesis by (auto simp: is_removed_def)
    qed
  qed
  have rem': "\<And>k. is_removed (?st' k) \<longleftrightarrow> k \<in> G \<or> is_removed (?st k)"
  proof -
    fix k
    show "is_removed (?st' k) \<longleftrightarrow> k \<in> G \<or> is_removed (?st k)"
    proof (cases "k \<in> G")
      case True
      with inG show ?thesis by simp
    next
      case False
      show ?thesis
      proof (cases "k = ?n")
        case True
        with False curN show ?thesis by simp
      next
        case kn: False
        with False out show ?thesis by simp
      qed
    qed
  qed
  have c2: "\<forall>k. is_removed (?st' k) \<longrightarrow> k < length N \<and> \<not> is_comment (N ! k)"
  proof (intro allI impI)
    fix k assume "is_removed (?st' k)"
    then have "k \<in> G \<or> is_removed (?st k)" by (simp add: rem')
    then show "k < length N \<and> \<not> is_comment (N ! k)"
    proof
      assume "k \<in> G" from Gfeat [OF this] show ?thesis by simp
    next
      assume "is_removed (?st k)" from u2 [OF this] show ?thesis .
    qed
  qed
  have c3: "\<forall>k k'. is_removed (?st' k) \<and> k' < length N \<and> roots ! k' = roots ! k
              \<longrightarrow> is_removed (?st' k')"
  proof (intro allI impI, elim conjE)
    fix k k' assume r: "is_removed (?st' k)" and k': "k' < length N" "roots ! k' = roots ! k"
    from r have "k \<in> G \<or> is_removed (?st k)" by (simp add: rem')
    then have "k' \<in> G \<or> is_removed (?st k')"
    proof
      assume "k \<in> G" from Gclosed [OF this k'] show ?thesis by simp
    next
      assume "is_removed (?st k)" from u3 [OF this k'] show ?thesis by simp
    qed
    then show "is_removed (?st' k')" by (simp add: rem')
  qed
  have c45: "\<forall>k < length (seen @ [l]). if is_comment (N ! k)
            then ?st' k = Some HEADER \<or> ?st' k = Some SEQUENCE_REGION
            else ?st' k = Some KEEP \<or> is_removed (?st' k)"
  proof (intro allI impI)
    fix k assume k: "k < length (seen @ [l])"
    show "if is_comment (N ! k)
            then ?st' k = Some HEADER \<or> ?st' k = Some SEQUENCE_REGION
            else ?st' k = Some KEEP \<or> is_removed (?st' k)"
    proof (cases "k \<in> G")
      case True
      with Gfeat [OF True] inG show ?thesis by simp
    next
      case False
      show ?thesis
      proof (cases "k = ?n")
        case True
        with cur False Nn rem' show ?thesis by (auto split: if_splits)
      next
        case kn: False
        with k have "k < ?n" by simp
        from u45 [OF this] out False kn show ?thesis by simp
      qed
    qed
  qed
  have c6: "\<forall>k \<ge> length (seen @ [l]). ?st' k = None \<or> is_removed (?st' k)"
  proof (intro allI impI)
    fix k assume k: "length (seen @ [l]) \<le> k"
    then have kn: "k \<noteq> ?n" "?n \<le> k" by simp_all
    show "?st' k = None \<or> is_removed (?st' k)"
    proof (cases "k \<in> G")
      case True
      with inG show ?thesis by simp
    next
      case False
      with out kn have "?st' k = ?st k" by simp
      with u6 [OF kn(2)] show ?thesis by simp
    qed
  qed
  have c9: "\<forall>k \<ge> length (seen @ [l]). k < length N \<and> \<not> is_comment (N ! k)
              \<longrightarrow> gff_converted_line_dict s' k = None"
  proof (intro allI impI)
    fix k assume k: "length (seen @ [l]) \<le> k" and h: "k < length N \<and> \<not> is_comment (N ! k)"
    then have kn: "k \<noteq> ?n" "?n \<le> k" by simp_all
    with cv have "gff_converted_line_dict s' k = gff_converted_line_dict s k" by simp
    with u9 [OF kn(2)] h show "gff_converted_line_dict s' k = None" by simp
  qed
  have c1: "line_num s' = length (seen @ [l])" using ln by simp
  have c1b: "length (seen @ [l]) \<le> length N" using nN by simp
  have c1c: "take (length (seen @ [l])) N = seen @ [l]" using tk by simp
  have inv': "upd_inv N roots (seen @ [l]) s'"
    unfolding upd_inv_def
    by (intro conjI) (rule c1 ll c1b c1c c2 c3 c45 c6 c9)+
  have k1: "\<forall>k. is_removed (?st k) \<longrightarrow> ?st' k = ?st k"
  proof (intro allI impI)
    fix k assume r: "is_removed (?st k)"
    then have nG: "k \<notin> G" using GnotRemoved by blast
    show "?st' k = ?st k"
    proof (cases "k = ?n")
      case True
      with nG have a: "?n \<notin> G" by simp
      from u2 [OF r] True Nn have "\<not> is_comment l" by simp
      with cur [OF a] r True show ?thesis by auto
    next
      case False
      with nG out show ?thesis by simp
    qed
  qed
  have k2: "\<forall>k < line_num s. gff_converted_line_dict s' k = gff_converted_line_dict s k"
    using cv lns by simp
  from inv' k1 k2 show ?thesis by (simp add: keeps_decided_def)
qed


lemma update_step_fasta_inv:
  assumes inv: "upd_inv N roots seen s" and nxt: "N = seen @ l # rest"
    and nb: "\<not> is_blank l" and f: "is_fasta l"
    and st: "update_step adict roots groups l s = Inr c"
  shows "\<exists>s'. c = Stop s' \<and> upd_inv N roots seen s' \<and> keeps_decided s s'"
proof -
  let ?s' = "s\<lparr>gff_converted_line_dict := (gff_converted_line_dict s)(line_num s \<mapsto> l)\<rparr>"
  note d = upd_invD [OF inv]
  from st nb f have c: "c = Stop ?s'" by (simp add: update_step_fasta)
  have Nn: "N ! length seen = l" using nxt by simp
  from f have cm: "is_comment l" by (simp add: is_fasta_def)
  have c9: "\<forall>k \<ge> length seen. k < length N \<and> \<not> is_comment (N ! k)
              \<longrightarrow> gff_converted_line_dict ?s' k = None"
  proof (intro allI impI)
    fix k assume k: "length seen \<le> k" and h: "k < length N \<and> \<not> is_comment (N ! k)"
    with Nn cm have "k \<noteq> length seen" by auto
    with d(7) [OF k] h d(1) show "gff_converted_line_dict ?s' k = None" by simp
  qed
  have i2: "gff_line_status_dict ?s' = gff_line_status_dict s" by simp
  have "upd_inv N roots seen ?s'"
    unfolding upd_inv_def i2
  proof (intro conjI)
    show "line_num ?s' = length seen" using d(1) by simp
    show "gff_line_list ?s' = seen" using d(2) by simp
    show "length seen \<le> length N" using nxt by simp
    show "take (length seen) N = seen" using nxt by simp
    show "\<forall>l. is_removed (gff_line_status_dict s l) \<longrightarrow> l < length N \<and> \<not> is_comment (N ! l)"
      using d(3) by blast
    show "\<forall>l l'. is_removed (gff_line_status_dict s l) \<and> l' < length N \<and> roots ! l' = roots ! l
             \<longrightarrow> is_removed (gff_line_status_dict s l')"
      using d(4) by blast
    show "\<forall>l < length seen.
            if is_comment (N ! l)
            then gff_line_status_dict s l = Some HEADER
                 \<or> gff_line_status_dict s l = Some SEQUENCE_REGION
            else gff_line_status_dict s l = Some KEEP \<or> is_removed (gff_line_status_dict s l)"
      using d(5) by blast
    show "\<forall>l \<ge> length seen. gff_line_status_dict s l = None
                               \<or> is_removed (gff_line_status_dict s l)"
      using d(6) by blast
    show "\<forall>k \<ge> length seen. k < length N \<and> \<not> is_comment (N ! k)
              \<longrightarrow> gff_converted_line_dict ?s' k = None" by (rule c9)
  qed
  moreover have "keeps_decided s ?s'" by (simp add: keeps_decided_def)
  ultimately show ?thesis using c by simp
qed



lemma update_step_featureE:
  assumes "\<not> is_blank l" "\<not> is_comment l" "update_step adict roots groups l s = Inr c"
  obtains (process) s1 where
      "gff_line_status_dict s (line_num s) = None \<or> gff_line_status_dict s (line_num s) = Some KEEP"
      "update_feature adict roots groups l s = Inr s1" "c = Next (append_line l s1)"
    | (skip) "gff_line_status_dict s (line_num s) \<noteq> None"
      "gff_line_status_dict s (line_num s) \<noteq> Some KEEP" "c = Next (append_line l s)"
proof (cases "gff_line_status_dict s (line_num s) = None
              \<or> gff_line_status_dict s (line_num s) = Some KEEP")
  case True
  with assms have "bind_e (update_feature adict roots groups l s)
                     (\<lambda>s1. Inr (Next (append_line l s1))) = Inr c"
    by (simp add: update_step_def is_blank_def is_comment_def)
  then obtain s1 where "update_feature adict roots groups l s = Inr s1"
    "Inr (Next (append_line l s1)) = (Inr c :: error + upd_state ctl)"
    by (rule bind_e_InrE)
  with True show thesis by (intro process [of s1]) simp_all
next
  case False
  with assms have "c = Next (append_line l s)"
    by (simp add: update_step_def is_blank_def is_comment_def)
  with False show thesis by (intro skip) simp_all
qed

lemma update_feature_casesE:
  assumes "update_feature adict roots groups line s = Inr s'"
  obtains (remove) v where "v = SEQUENCE_REMOVED \<or> v = POSITION_REMOVED"
      "line_num s < length roots"
      "s' = s\<lparr>gff_line_status_dict :=
                mark_group (groups (roots ! line_num s)) v (gff_line_status_dict s)\<rparr>"
    | (keep) newtext where
      "s' = s\<lparr>gff_line_status_dict := (gff_line_status_dict s)(line_num s \<mapsto> KEEP),
              gff_converted_line_dict := (gff_converted_line_dict s)(line_num s \<mapsto> newtext)\<rparr>"
proof -
  from update_feature_cases [OF assms] show thesis
  proof
    assume "\<exists>v. (v = SEQUENCE_REMOVED \<or> v = POSITION_REMOVED) \<and> line_num s < length roots
            \<and> s' = s\<lparr>gff_line_status_dict :=
                      mark_group (groups (roots ! line_num s)) v (gff_line_status_dict s)\<rparr>"
    then obtain v where "v = SEQUENCE_REMOVED \<or> v = POSITION_REMOVED"
      "line_num s < length roots"
      "s' = s\<lparr>gff_line_status_dict :=
                mark_group (groups (roots ! line_num s)) v (gff_line_status_dict s)\<rparr>"
      by (elim exE conjE)
    then show thesis by (rule remove)
  next
    assume "\<exists>txt. s' = s\<lparr>gff_line_status_dict := (gff_line_status_dict s)(line_num s \<mapsto> KEEP),
                        gff_converted_line_dict := (gff_converted_line_dict s)(line_num s \<mapsto> txt)\<rparr>"
    then obtain newtext where
      "s' = s\<lparr>gff_line_status_dict := (gff_line_status_dict s)(line_num s \<mapsto> KEEP),
              gff_converted_line_dict := (gff_converted_line_dict s)(line_num s \<mapsto> newtext)\<rparr>"
      by (elim exE)
    then show thesis by (rule keep)
  qed
qed

lemma update_step_commentE:
  assumes "\<not> is_blank l" "is_comment l" "\<not> is_fasta l"
    "update_step adict roots groups l s = Inr c"
  obtains v where "v = HEADER \<or> v = SEQUENCE_REGION"
    "c = Next (append_line l
       (s\<lparr>gff_converted_line_dict := (gff_converted_line_dict s)(line_num s \<mapsto> l),
          gff_line_status_dict := (gff_line_status_dict s)(line_num s \<mapsto> v)\<rparr>))"
proof (cases "startswith (strip l) ''##sequence-region''")
  case True
  with assms have "c = Next (append_line l
       (s\<lparr>gff_converted_line_dict := (gff_converted_line_dict s)(line_num s \<mapsto> l),
          gff_line_status_dict := (gff_line_status_dict s)(line_num s \<mapsto> SEQUENCE_REGION)\<rparr>))"
    by (simp add: update_step_def is_blank_def is_fasta_def is_comment_def Let_def)
  then show thesis by (intro that [of SEQUENCE_REGION]) simp_all
next
  case False
  with assms have "c = Next (append_line l
       (s\<lparr>gff_converted_line_dict := (gff_converted_line_dict s)(line_num s \<mapsto> l),
          gff_line_status_dict := (gff_line_status_dict s)(line_num s \<mapsto> HEADER)\<rparr>))"
    by (simp add: update_step_def is_blank_def is_fasta_def is_comment_def Let_def)
  then show thesis by (intro that [of HEADER]) simp_all
qed


lemma upd_inv_comment:
  assumes inv: "upd_inv N roots seen s" and nxt: "N = seen @ l # rest"
    and cm: "is_comment l" and v: "v = HEADER \<or> v = SEQUENCE_REGION"
    and s': "s' = append_line l
       (s\<lparr>gff_converted_line_dict := (gff_converted_line_dict s)(line_num s \<mapsto> l),
          gff_line_status_dict := (gff_line_status_dict s)(line_num s \<mapsto> v)\<rparr>)"
  shows "upd_inv N roots (seen @ [l]) s' \<and> keeps_decided s s'"
proof -
  have lns: "line_num s = length seen" and lls: "gff_line_list s = seen"
    using upd_invD(1,2) [OF inv] by simp_all
  show ?thesis
  proof (rule upd_inv_next [OF inv nxt, where G = "{}"])
    show "line_num s' = Suc (length seen)" using lns s' by simp
    show "gff_line_list s' = seen @ [l]" using lls s' by simp
    show "\<forall>k. k \<noteq> length seen \<longrightarrow> gff_converted_line_dict s' k = gff_converted_line_dict s k"
      using lns s' by simp
    show "{} = {} \<or> (\<not> is_comment l \<and> roots_ok N roots
                       \<and> \<not> is_removed (gff_line_status_dict s (length seen))
                       \<and> {} = {k. k < length N \<and> roots ! k = roots ! length seen})" by simp
    show "\<forall>k\<in>{}. is_removed (gff_line_status_dict s' k)" by simp
    show "\<forall>k. k \<notin> {} \<and> k \<noteq> length seen \<longrightarrow> gff_line_status_dict s' k = gff_line_status_dict s k"
      using lns s' by simp
    show "if is_comment l
         then gff_line_status_dict s' (length seen) = Some HEADER
              \<or> gff_line_status_dict s' (length seen) = Some SEQUENCE_REGION
         else (gff_line_status_dict s' (length seen) = Some KEEP
               \<and> \<not> is_removed (gff_line_status_dict s (length seen)))
              \<or> (gff_line_status_dict s' (length seen) = gff_line_status_dict s (length seen)
                  \<and> is_removed (gff_line_status_dict s (length seen)))"
      using cm v lns s' by auto
  qed
qed

lemma upd_inv_skip:
  assumes inv: "upd_inv N roots seen s" and nxt: "N = seen @ l # rest"
    and nc: "\<not> is_comment l"
    and a: "gff_line_status_dict s (line_num s) \<noteq> None"
           "gff_line_status_dict s (line_num s) \<noteq> Some KEEP"
  shows "upd_inv N roots (seen @ [l]) (append_line l s) \<and> keeps_decided s (append_line l s)"
proof -
  have lns: "line_num s = length seen" and lls: "gff_line_list s = seen"
    using upd_invD(1,2) [OF inv] by simp_all
  from upd_invD(6) [OF inv, of "length seen"] a lns
  have rm: "is_removed (gff_line_status_dict s (length seen))" by auto
  show ?thesis
  proof (rule upd_inv_next [OF inv nxt, where G = "{}"])
    show "line_num (append_line l s) = Suc (length seen)" using lns  by simp
    show "gff_line_list (append_line l s) = seen @ [l]" using lls  by simp
    show "\<forall>k. k \<noteq> length seen \<longrightarrow> gff_converted_line_dict (append_line l s) k = gff_converted_line_dict s k"
      using lns  by simp
    show "{} = {} \<or> (\<not> is_comment l \<and> roots_ok N roots
                       \<and> \<not> is_removed (gff_line_status_dict s (length seen))
                       \<and> {} = {k. k < length N \<and> roots ! k = roots ! length seen})" by simp
    show "\<forall>k\<in>{}. is_removed (gff_line_status_dict (append_line l s) k)" by simp
    show "\<forall>k. k \<notin> {} \<and> k \<noteq> length seen \<longrightarrow> gff_line_status_dict (append_line l s) k = gff_line_status_dict s k"
      using lns  by simp
    show "if is_comment l
         then gff_line_status_dict (append_line l s) (length seen) = Some HEADER
              \<or> gff_line_status_dict (append_line l s) (length seen) = Some SEQUENCE_REGION
         else (gff_line_status_dict (append_line l s) (length seen) = Some KEEP
               \<and> \<not> is_removed (gff_line_status_dict s (length seen)))
              \<or> (gff_line_status_dict (append_line l s) (length seen) = gff_line_status_dict s (length seen)
                  \<and> is_removed (gff_line_status_dict s (length seen)))"
      using nc rm by simp
  qed
qed

lemma upd_inv_keep:
  assumes inv: "upd_inv N roots seen s" and nxt: "N = seen @ l # rest"
    and nc: "\<not> is_comment l"
    and a: "gff_line_status_dict s (line_num s) = None
            \<or> gff_line_status_dict s (line_num s) = Some KEEP"
    and s1: "s1 = s\<lparr>gff_line_status_dict := (gff_line_status_dict s)(line_num s \<mapsto> KEEP),
              gff_converted_line_dict := (gff_converted_line_dict s)(line_num s \<mapsto> newtext)\<rparr>"
  shows "upd_inv N roots (seen @ [l]) (append_line l s1) \<and> keeps_decided s (append_line l s1)"
proof -
  have lns: "line_num s = length seen" and lls: "gff_line_list s = seen"
    using upd_invD(1,2) [OF inv] by simp_all
  from a lns have nr: "\<not> is_removed (gff_line_status_dict s (length seen))"
    by (auto simp: is_removed_def)
  show ?thesis
  proof (rule upd_inv_next [OF inv nxt, where G = "{}"])
    show "line_num (append_line l s1) = Suc (length seen)" using lns s1 by simp
    show "gff_line_list (append_line l s1) = seen @ [l]" using lls s1 by simp
    show "\<forall>k. k \<noteq> length seen \<longrightarrow> gff_converted_line_dict (append_line l s1) k = gff_converted_line_dict s k"
      using lns s1 by simp
    show "{} = {} \<or> (\<not> is_comment l \<and> roots_ok N roots
                       \<and> \<not> is_removed (gff_line_status_dict s (length seen))
                       \<and> {} = {k. k < length N \<and> roots ! k = roots ! length seen})" by simp
    show "\<forall>k\<in>{}. is_removed (gff_line_status_dict (append_line l s1) k)" by simp
    show "\<forall>k. k \<notin> {} \<and> k \<noteq> length seen \<longrightarrow> gff_line_status_dict (append_line l s1) k = gff_line_status_dict s k"
      using lns s1 by simp
    show "if is_comment l
         then gff_line_status_dict (append_line l s1) (length seen) = Some HEADER
              \<or> gff_line_status_dict (append_line l s1) (length seen) = Some SEQUENCE_REGION
         else (gff_line_status_dict (append_line l s1) (length seen) = Some KEEP
               \<and> \<not> is_removed (gff_line_status_dict s (length seen)))
              \<or> (gff_line_status_dict (append_line l s1) (length seen) = gff_line_status_dict s (length seen)
                  \<and> is_removed (gff_line_status_dict s (length seen)))"
      using nc nr s1 lns by simp
  qed
qed

lemma upd_inv_remove:
  assumes ctx: "roots_ok N roots" "groups_ok roots groups"
    and inv: "upd_inv N roots seen s" and nxt: "N = seen @ l # rest"
    and nc: "\<not> is_comment l"
    and a: "gff_line_status_dict s (line_num s) = None
            \<or> gff_line_status_dict s (line_num s) = Some KEEP"
    and v: "v = SEQUENCE_REMOVED \<or> v = POSITION_REMOVED"
    and s1: "s1 = s\<lparr>gff_line_status_dict :=
                mark_group (groups (roots ! line_num s)) v (gff_line_status_dict s)\<rparr>"
  shows "upd_inv N roots (seen @ [l]) (append_line l s1) \<and> keeps_decided s (append_line l s1)"
proof -
  let ?n = "length seen"
  let ?G = "{k. k < length N \<and> roots ! k = roots ! ?n}"
  have lns: "line_num s = ?n" and lls: "gff_line_list s = seen"
    using upd_invD(1,2) [OF inv] by simp_all
  have nN: "?n < length N" using nxt by simp
  from ctx(1) have lr: "length roots = length N" by (simp add: roots_ok_def)
  from a lns have nr: "\<not> is_removed (gff_line_status_dict s ?n)"
    by (auto simp: is_removed_def)
  have gs: "set (groups (roots ! ?n)) = ?G"
    using group_set [OF ctx(2), of "roots ! ?n"] lr by simp
  have st1: "\<And>k. gff_line_status_dict (append_line l s1) k
                     = (if k \<in> ?G then Some v else gff_line_status_dict s k)"
    using s1 lns gs by (simp add: mark_group_apply)
  have nG: "?n \<in> ?G" using nN by simp
  show ?thesis
  proof (rule upd_inv_next [OF inv nxt, where G = ?G])
    show "line_num (append_line l s1) = Suc ?n" using lns s1 by simp
    show "gff_line_list (append_line l s1) = seen @ [l]" using lls s1 by simp
    show "\<forall>k. k \<noteq> ?n \<longrightarrow> gff_converted_line_dict (append_line l s1) k = gff_converted_line_dict s k"
      using s1 by simp
    show "?G = {} \<or> (\<not> is_comment l \<and> roots_ok N roots
                       \<and> \<not> is_removed (gff_line_status_dict s ?n)
                       \<and> ?G = {k. k < length N \<and> roots ! k = roots ! ?n})"
      using nc ctx(1) nr by simp
    show "\<forall>k\<in>?G. is_removed (gff_line_status_dict (append_line l s1) k)"
    proof
      fix k assume "k \<in> ?G"
      then have "gff_line_status_dict (append_line l s1) k = Some v" by (simp only: st1 if_True)
      with v show "is_removed (gff_line_status_dict (append_line l s1) k)"
        by (auto simp: is_removed_def)
    qed
    show "\<forall>k. k \<notin> ?G \<and> k \<noteq> ?n \<longrightarrow> gff_line_status_dict (append_line l s1) k = gff_line_status_dict s k"
    proof (intro allI impI)
      fix k assume "k \<notin> ?G \<and> k \<noteq> ?n"
      then have "k \<notin> ?G" by (rule conjunct1)
      then show "gff_line_status_dict (append_line l s1) k = gff_line_status_dict s k"
        by (simp only: st1 if_False)
    qed
    assume nn: "?n \<notin> ?G"
    from nn nG show "if is_comment l
         then gff_line_status_dict (append_line l s1) ?n = Some HEADER
              \<or> gff_line_status_dict (append_line l s1) ?n = Some SEQUENCE_REGION
         else (gff_line_status_dict (append_line l s1) ?n = Some KEEP
               \<and> \<not> is_removed (gff_line_status_dict s ?n))
              \<or> (gff_line_status_dict (append_line l s1) ?n = gff_line_status_dict s ?n
                  \<and> is_removed (gff_line_status_dict s ?n))"
      by (rule notE)
  qed
qed


lemma update_step_inv:
  assumes ctx: "roots_ok N roots" "groups_ok roots groups"
    and inv: "upd_inv N roots seen s" and nxt: "N = seen @ l # rest"
    and nb: "\<not> is_blank l" and nf: "\<not> is_fasta l"
    and st: "update_step adict roots groups l s = Inr c"
  shows "\<exists>s'. c = Next s' \<and> upd_inv N roots (seen @ [l]) s' \<and> keeps_decided s s'"
proof (cases "is_comment l")
  case True
  from nb True nf st show ?thesis
  proof (cases rule: update_step_commentE)
    case (1 v)
    from upd_inv_comment [OF inv nxt True 1(1) refl] 1(2)
    show ?thesis by (intro exI conjI) (assumption, simp_all)
  qed
next
  case nc: False
  from nb nc st show ?thesis
  proof (cases rule: update_step_featureE)
    case (process s1)
    from process(2) show ?thesis
    proof (cases rule: update_feature_casesE)
      case (remove v)
      from upd_inv_remove [OF ctx inv nxt nc process(1) remove(1,3)] process(3)
      show ?thesis by (intro exI conjI) (assumption, simp_all)
    next
      case (keep newtext)
      from upd_inv_keep [OF inv nxt nc process(1) keep] process(3)
      show ?thesis by (intro exI conjI) (assumption, simp_all)
    qed
  next
    case skip
    from upd_inv_skip [OF inv nxt nc skip(1,2)] skip(3)
    show ?thesis by (intro exI conjI) (assumption, simp_all)
  qed
qed

subsection \<open>The second pass: the whole loop\<close>

lemma keeps_decided_refl: "keeps_decided s s"
  by (simp add: keeps_decided_def)

lemma keeps_decided_trans:
  assumes ab: "keeps_decided a b" and bc: "keeps_decided b c" and le: "line_num a \<le> line_num b"
  shows "keeps_decided a c"
  unfolding keeps_decided_def
proof (intro conjI allI impI)
  fix k assume r: "is_removed (gff_line_status_dict a k)"
  with ab have 1: "gff_line_status_dict b k = gff_line_status_dict a k"
    by (simp add: keeps_decided_def)
  with r have "is_removed (gff_line_status_dict b k)" by simp
  with bc have "gff_line_status_dict c k = gff_line_status_dict b k"
    by (simp add: keeps_decided_def)
  with 1 show "gff_line_status_dict c k = gff_line_status_dict a k" by simp
next
  fix k assume k: "k < line_num a"
  with ab have 1: "gff_converted_line_dict b k = gff_converted_line_dict a k"
    by (simp add: keeps_decided_def)
  from k le have "k < line_num b" by simp
  with bc have "gff_converted_line_dict c k = gff_converted_line_dict b k"
    by (simp add: keeps_decided_def)
  with 1 show "gff_converted_line_dict c k = gff_converted_line_dict a k" by simp
qed

lemma update_loop_inv:
  assumes ctx: "roots_ok N roots" "groups_ok roots groups"
  shows "upd_inv N roots seen s \<Longrightarrow> N = seen @ numbered ls \<Longrightarrow>
         for_lines (update_step adict roots groups) ls s = Inr fin \<Longrightarrow>
         upd_inv N roots (seen @ body_lines ls) fin \<and> keeps_decided s fin"
proof (induction ls arbitrary: seen s)
  case Nil
  then show ?case by (simp add: keeps_decided_refl)
next
  case (Cons l ls)
  show ?case
  proof (cases "is_blank l")
    case True
    with Cons.prems(3) have run: "for_lines (update_step adict roots groups) ls s = Inr fin"
      by (simp add: update_step_blank)
    from Cons.prems(2) True have nx: "N = seen @ numbered ls" by simp
    from Cons.IH [OF Cons.prems(1) nx run] True show ?thesis by simp
  next
    case nb: False
    obtain c where c: "update_step adict roots groups l s = Inr c"
      using Cons.prems(3) by (cases "update_step adict roots groups l s") simp_all
    show ?thesis
    proof (cases "is_fasta l")
      case True
      with nb Cons.prems(2) have nx: "N = seen @ l # []" by simp
      from update_step_fasta_inv [OF Cons.prems(1) nx nb True c] obtain s' where
        s': "c = Stop s'" "upd_inv N roots seen s'" "keeps_decided s s'" by blast
      from Cons.prems(3) c s'(1) have "fin = s'" by simp
      with s' nb True show ?thesis by simp
    next
      case nf: False
      with nb Cons.prems(2) have nx: "N = seen @ l # numbered ls" by simp
      from update_step_inv [OF ctx Cons.prems(1) nx nb nf c] obtain s1 where
        s1: "c = Next s1" "upd_inv N roots (seen @ [l]) s1" "keeps_decided s s1" by blast
      from Cons.prems(3) c s1(1) have run: "for_lines (update_step adict roots groups) ls s1 = Inr fin"
        by simp
      from nx have nx1: "N = (seen @ [l]) @ numbered ls" by simp
      from Cons.IH [OF s1(2) nx1 run] have
        f: "upd_inv N roots ((seen @ [l]) @ body_lines ls) fin" "keeps_decided s1 fin" by simp_all
      have "line_num s \<le> line_num s1"
        using upd_invD(1) [OF Cons.prems(1)] upd_invD(1) [OF s1(2)] by simp
      from keeps_decided_trans [OF s1(3) f(2) this] f(1) nb nf show ?thesis by simp
    qed
  qed
qed

lemma loop_states_head: "s \<in> set (loop_states body ls s)"
  by (cases ls) simp_all

lemma loop_states_inv:
  assumes ctx: "roots_ok N roots" "groups_ok roots groups"
  shows "upd_inv N roots seen s \<Longrightarrow> N = seen @ numbered ls \<Longrightarrow>
         for_lines (update_step adict roots groups) ls s = Inr fin \<Longrightarrow>
         mid \<in> set (loop_states (update_step adict roots groups) ls s) \<Longrightarrow>
         keeps_decided mid fin"
proof (induction ls arbitrary: seen s)
  case Nil
  then show ?case by (simp add: keeps_decided_refl)
next
  case (Cons l ls)
  have whole: "keeps_decided s fin"
    using update_loop_inv [OF ctx Cons.prems(1,2,3)] by simp
  show ?case
  proof (cases "mid = s")
    case True
    with whole show ?thesis by simp
  next
    case ne: False
    obtain c where c: "update_step adict roots groups l s = Inr c"
      using Cons.prems(3) by (cases "update_step adict roots groups l s") simp_all
    show ?thesis
    proof (cases "is_blank l")
      case True
      with c have cs: "c = Next s" by (simp add: update_step_blank)
      with Cons.prems(3,4) c ne have run: "for_lines (update_step adict roots groups) ls s = Inr fin"
        and m: "mid \<in> set (loop_states (update_step adict roots groups) ls s)" by simp_all
      from Cons.prems(2) True have nx: "N = seen @ numbered ls" by simp
      from Cons.IH [OF Cons.prems(1) nx run m] show ?thesis .
    next
      case nb: False
      show ?thesis
      proof (cases "is_fasta l")
        case True
        with nb Cons.prems(2) have nx: "N = seen @ l # []" by simp
        from update_step_fasta_inv [OF Cons.prems(1) nx nb True c] obtain s' where
          s': "c = Stop s'" by blast
        with Cons.prems(3,4) c ne have "mid = fin" by simp
        then show ?thesis by (simp add: keeps_decided_refl)
      next
        case nf: False
        with nb Cons.prems(2) have nx: "N = seen @ l # numbered ls" by simp
        from update_step_inv [OF ctx Cons.prems(1) nx nb nf c] obtain s1 where
          s1: "c = Next s1" "upd_inv N roots (seen @ [l]) s1" by blast
        from Cons.prems(3,4) c s1(1) ne
        have run: "for_lines (update_step adict roots groups) ls s1 = Inr fin"
          and m: "mid \<in> set (loop_states (update_step adict roots groups) ls s1)" by simp_all
        from nx have nx1: "N = (seen @ [l]) @ numbered ls" by simp
        from Cons.IH [OF s1(2) nx1 run m] show ?thesis .
      qed
    qed
  qed
qed

lemma upd_inv_init: "upd_inv N roots [] upd_init"
  by (simp add: upd_inv_def upd_init_def is_removed_def)

lemma tree_ctx:
  assumes "find_root_features gff = Inr rs"
  shows "roots_ok (numbered gff) (gff_line_root_list rs)"
    "groups_ok (gff_line_root_list rs) (gff_root_line_dict rs)"
  using find_root_features_inv [OF assms] by (simp_all add: tree_inv_def)

subsection \<open>Removal of whole groups, and the tallies\<close>

lemma loop_states_last:
  "for_lines body ls s = Inr fin \<Longrightarrow> fin \<in> set (loop_states body ls s)"
proof (induction ls arbitrary: s)
  case Nil
  then show ?case by simp
next
  case (Cons l ls)
  then show ?case
    by (cases "body l s") (auto split: ctl.splits)
qed

lemma output_step_counts:
  assumes "output_step sr u e s = Inr s'"
  shows "updated_count s' = updated_count s
           + (if gff_line_status_dict u (fst e) = Some KEEP then 1 else 0)"
    and "removed_count s' = removed_count s
           + (if is_removed (gff_line_status_dict u (fst e)) then 1 else 0)"
    and "length (removed_file s') = length (removed_file s)
           + (if is_removed (gff_line_status_dict u (fst e)) then 1 else 0)"
proof -
  from assms obtain st where st: "gff_line_status_dict u (fst e) = Some st"
    by (auto simp: output_step_def Let_def lookup_py_def elim!: bind_e_InrE split: option.splits)
  have all: "updated_count s' = updated_count s + (if st = KEEP then 1 else 0)
     \<and> removed_count s' = removed_count s
           + (if st = SEQUENCE_REMOVED \<or> st = POSITION_REMOVED then 1 else 0)
     \<and> length (removed_file s') = length (removed_file s)
           + (if st = SEQUENCE_REMOVED \<or> st = POSITION_REMOVED then 1 else 0)"
    using assms st
    by (cases st)
       (auto simp: output_step_def Let_def lookup_py_def elim!: bind_e_InrE split: if_splits)
  from all st show "updated_count s' = updated_count s
           + (if gff_line_status_dict u (fst e) = Some KEEP then 1 else 0)" by simp
  from all st show "removed_count s' = removed_count s
           + (if is_removed (gff_line_status_dict u (fst e)) then 1 else 0)"
    by (simp add: is_removed_def)
  from all st show "length (removed_file s') = length (removed_file s)
           + (if is_removed (gff_line_status_dict u (fst e)) then 1 else 0)"
    by (simp add: is_removed_def)
qed

lemma output_loop_counts:
  "for_each (output_step sr u) es s = Inr s' \<Longrightarrow>
   updated_count s' = updated_count s
      + length (filter (\<lambda>e. gff_line_status_dict u (fst e) = Some KEEP) es)
   \<and> removed_count s' = removed_count s
      + length (filter (\<lambda>e. is_removed (gff_line_status_dict u (fst e))) es)
   \<and> length (removed_file s') = length (removed_file s)
      + length (filter (\<lambda>e. is_removed (gff_line_status_dict u (fst e))) es)"
proof (induction es arbitrary: s)
  case Nil
  then show ?case by simp
next
  case (Cons e es)
  from Cons.prems obtain s1 where s1: "output_step sr u e s = Inr s1"
    "for_each (output_step sr u) es s1 = Inr s'"
    by (auto elim!: bind_e_InrE)
  from Cons.IH [OF s1(2)] output_step_counts [OF s1(1)] show ?case by simp
qed

lemma filter_fst_zip:
  "length xs = length ys \<Longrightarrow>
   length (filter (\<lambda>e. P (fst e)) (zip xs ys)) = length (filter P xs)"
  by (induction xs ys rule: list_induct2) simp_all

lemma filter_partition_count:
  "(\<And>x. x \<in> set xs \<Longrightarrow> (R x \<longleftrightarrow> P x \<or> Q x) \<and> \<not> (P x \<and> Q x)) \<Longrightarrow>
   length (filter P xs) + length (filter Q xs) = length (filter R xs)"
  by (induction xs) auto

text \<open>
  C5. Let the first pass succeed and the second pass end in \<open>fin\<close>. If in any state \<open>mid\<close>
  the second pass goes through a line \<open>l\<close> has a removed disposition, then in \<open>fin\<close> every
  line of the group of \<open>l\<close> has a removed disposition, and \<open>l\<close> has the very disposition it had
  in \<open>mid\<close>: a removed line is never changed again, to KEEP or to anything else.
\<close>

theorem subtree_atomicity:
  assumes rs: "find_root_features gff = Inr rs"
    and fin: "update_features adict rs gff = Inr fin"
    and mid: "mid \<in> set (loop_states
                (update_step adict (gff_line_root_list rs) (gff_root_line_dict rs)) gff upd_init)"
    and rem: "is_removed (gff_line_status_dict mid l)"
    and grp: "l' \<in> set (gff_root_line_dict rs (gff_line_root_list rs ! l))"
  shows "is_removed (gff_line_status_dict fin l')
         \<and> gff_line_status_dict fin l = gff_line_status_dict mid l"
proof -
  let ?N = "numbered gff" and ?roots = "gff_line_root_list rs"
  note ctx = tree_ctx [OF rs]
  from fin have run: "for_lines (update_step adict ?roots (gff_root_line_dict rs)) gff upd_init = Inr fin"
    by (simp add: update_features_def)
  have nx: "?N = [] @ numbered gff" by simp
  from update_loop_inv [OF ctx upd_inv_init nx run]
  have inv: "upd_inv ?N ?roots ([] @ body_lines gff) fin" by simp
  from loop_states_inv [OF ctx upd_inv_init nx run mid] have kd: "keeps_decided mid fin" .
  with rem have same: "gff_line_status_dict fin l = gff_line_status_dict mid l"
    by (simp add: keeps_decided_def)
  with rem have rf: "is_removed (gff_line_status_dict fin l)" by simp
  from ctx(1) have lr: "length ?roots = length ?N" by (simp add: roots_ok_def)
  from grp group_set [OF ctx(2)] lr have "l' < length ?N" "?roots ! l' = ?roots ! l" by auto
  from upd_invD(4) [OF inv rf this] same show ?thesis by simp
qed

theorem subtree_atomicity_witness:
  "\<exists>rs fin. find_root_features late_failure_gff = Inr rs
     \<and> update_features (alignment_dict_of [example_alignment]) rs late_failure_gff = Inr fin
     \<and> fin \<in> set (loop_states (update_step (alignment_dict_of [example_alignment])
                     (gff_line_root_list rs) (gff_root_line_dict rs)) late_failure_gff upd_init)
     \<and> is_removed (gff_line_status_dict fin 1)
     \<and> 0 \<in> set (gff_root_line_dict rs (gff_line_root_list rs ! 1))
     \<and> is_removed (gff_line_status_dict fin 0)"
proof -
  have run: "case find_root_features late_failure_gff of
               Inl e \<Rightarrow> False
             | Inr rs \<Rightarrow>
                (case update_features (alignment_dict_of [example_alignment]) rs late_failure_gff of
                   Inl e \<Rightarrow> False
                 | Inr fin \<Rightarrow> is_removed (gff_line_status_dict fin 1)
                     \<and> 0 \<in> set (gff_root_line_dict rs (gff_line_root_list rs ! 1)))"
    by code_simp
  then obtain rs where rs: "find_root_features late_failure_gff = Inr rs"
    by (cases "find_root_features late_failure_gff") simp_all
  with run obtain fin where
    fin: "update_features (alignment_dict_of [example_alignment]) rs late_failure_gff = Inr fin"
    by (cases "update_features (alignment_dict_of [example_alignment]) rs late_failure_gff")
       simp_all
  from run rs fin have h: "is_removed (gff_line_status_dict fin 1)"
    "0 \<in> set (gff_root_line_dict rs (gff_line_root_list rs ! 1))" by simp_all
  have mid: "fin \<in> set (loop_states (update_step (alignment_dict_of [example_alignment])
                     (gff_line_root_list rs) (gff_root_line_dict rs)) late_failure_gff upd_init)"
    using fin by (intro loop_states_last) (simp add: update_features_def)
  from subtree_atomicity [OF rs fin mid h] have "is_removed (gff_line_status_dict fin 0)"
    by simp
  with rs fin mid h show ?thesis by blast
qed

lemma lookup_py_Inr: "lookup_py d k = Inr v \<longleftrightarrow> d k = Some v"
  by (simp add: lookup_py_def split: option.splits)

lemma scaffold_set_Suc:
  "{x. \<exists>j < Suc lc. keep_scaffold u j = Some x}
     = {x. \<exists>j < lc. keep_scaffold u j = Some x}
       \<union> (case keep_scaffold u lc of None \<Rightarrow> {} | Some x \<Rightarrow> {x})"
  by (auto simp: less_Suc_eq split: option.splits)

lemma output_step_effect:
  assumes st: "output_step sr u (lc, line) s = Inr s1"
    and W: "wrote_sequence_region s = {x. \<exists>j < lc. keep_scaffold u j = Some x}"
  shows "updated_file s1 = updated_file s @ written_for sr u lc
     \<and> wrote_sequence_region s1 = {x. \<exists>j < Suc lc. keep_scaffold u j = Some x}
     \<and> removed_file s1 = removed_file s
          @ (if is_removed (gff_line_status_dict u lc) then [line] else [])
     \<and> (gff_line_status_dict u lc = Some KEEP \<longrightarrow> gff_converted_line_dict u lc \<noteq> None)"
proof -
  from st obtain d where d: "gff_line_status_dict u lc = Some d"
    by (auto simp: output_step_def Let_def lookup_py_Inr elim!: bind_e_InrE)
  show ?thesis
  proof (cases "d = KEEP")
    case True
    with st d obtain conv where conv: "gff_converted_line_dict u lc = Some conv"
      by (auto simp: output_step_def Let_def lookup_py_Inr elim!: bind_e_InrE)
    let ?x = "hd (split_on TAB conv)"
    have ks: "keep_scaffold u lc = Some ?x" using d True conv by (simp add: keep_scaffold_def)
    have body: "bind_e
              (if ?x \<notin> wrote_sequence_region s then
                 bind_e (lookup_py sr ?x) (\<lambda>r.
                   Inr (s\<lparr>updated_file := updated_file s @ [r],
                          wrote_sequence_region := insert ?x (wrote_sequence_region s)\<rparr>))
               else Inr s)
              (\<lambda>s1. Inr (s1\<lparr>updated_file := updated_file s1 @ [conv],
                              updated_count := updated_count s1 + 1\<rparr>)) = Inr s1"
      using st d True conv by (simp add: output_step_def Let_def lookup_py_def bind_e_def)
    show ?thesis
    proof (cases "?x \<in> wrote_sequence_region s")
      case in_w: True
      with body have s1: "s1 = s\<lparr>updated_file := updated_file s @ [conv],
                              updated_count := updated_count s + 1\<rparr>"
        by (simp add: bind_e_def)
      from in_w W have ex: "\<exists>j < lc. keep_scaffold u j = Some ?x" by simp
      have wf: "written_for sr u lc = [conv]"
        using d True conv ks ex by (simp add: written_for_def)
      have ws: "{x. \<exists>j < Suc lc. keep_scaffold u j = Some x} = wrote_sequence_region s"
        unfolding scaffold_set_Suc using ks W in_w by auto
      show ?thesis using s1 wf ws d True conv by (simp add: is_removed_def)
    next
      case out_w: False
      with body obtain r where r: "sr ?x = Some r"
        and s1: "s1 = s\<lparr>updated_file := updated_file s @ [r, conv],
                        wrote_sequence_region := insert ?x (wrote_sequence_region s),
                        updated_count := updated_count s + 1\<rparr>"
        by (auto simp: lookup_py_Inr elim!: bind_e_InrE)
      from out_w W have ex: "\<not> (\<exists>j < lc. keep_scaffold u j = Some ?x)" by simp
      have wf: "written_for sr u lc = [r, conv]"
        using d True conv ks ex r by (simp add: written_for_def)
      have ws: "{x. \<exists>j < Suc lc. keep_scaffold u j = Some x}
                  = insert ?x (wrote_sequence_region s)"
        unfolding scaffold_set_Suc using ks W by auto
      show ?thesis using s1 wf ws d True conv by (simp add: is_removed_def)
    qed
  next
    case nk: False
    then have ks: "keep_scaffold u lc = None" using d by (simp add: keep_scaffold_def)
    have ws: "{x. \<exists>j < Suc lc. keep_scaffold u j = Some x} = wrote_sequence_region s"
      unfolding scaffold_set_Suc using ks W by simp
    show ?thesis
    proof (cases "d = HEADER")
      case True
      with st d obtain conv where conv: "gff_converted_line_dict u lc = Some conv"
        and s1: "s1 = s\<lparr>updated_file := updated_file s @ [conv]\<rparr>"
        by (auto simp: output_step_def Let_def lookup_py_Inr elim!: bind_e_InrE)
      have wf: "written_for sr u lc = [conv]" using d True conv by (simp add: written_for_def)
      show ?thesis using s1 wf ws d True by (simp add: is_removed_def)
    next
      case nh: False
      show ?thesis
      proof (cases "d = POSITION_REMOVED \<or> d = SEQUENCE_REMOVED")
        case True
        with st d nk nh have s1: "s1 = s\<lparr>removed_file := removed_file s @ [line],
                 removed_count := removed_count s + 1\<rparr>"
          by (auto simp: output_step_def Let_def lookup_py_def bind_e_def)
        have wf: "written_for sr u lc = []" using d True by (auto simp: written_for_def)
        show ?thesis using s1 wf ws d True by (auto simp: is_removed_def)
      next
        case False
        with st d nk nh have s1: "s1 = s"
          by (auto simp: output_step_def Let_def lookup_py_def bind_e_def)
        from False nk nh have dd: "d = SEQUENCE_REGION" by (cases d) simp_all
        have wf: "written_for sr u lc = []" using d dd by (simp add: written_for_def)
        show ?thesis using s1 wf ws d dd by (simp add: is_removed_def)
      qed
    qed
  qed
qed

lemma output_loop_effect:
  "for_each (output_step sr u) (zip [a ..< a + length ls] ls) s = Inr s' \<Longrightarrow>
   wrote_sequence_region s = {x. \<exists>j < a. keep_scaffold u j = Some x} \<Longrightarrow>
   updated_file s' = updated_file s @ concat (map (written_for sr u) [a ..< a + length ls])
   \<and> wrote_sequence_region s' = {x. \<exists>j < a + length ls. keep_scaffold u j = Some x}
   \<and> removed_file s' = removed_file s
        @ map snd (filter (\<lambda>e. is_removed (gff_line_status_dict u (fst e)))
                     (zip [a ..< a + length ls] ls))
   \<and> (\<forall>lc. a \<le> lc \<and> lc < a + length ls \<and> gff_line_status_dict u lc = Some KEEP
          \<longrightarrow> gff_converted_line_dict u lc \<noteq> None)"
proof (induction ls arbitrary: a s)
  case Nil
  then show ?case by auto
next
  case (Cons l ls)
  have up: "[a ..< a + length (l # ls)] = a # [Suc a ..< Suc a + length ls]"
    by (subst upt_rec) simp
  from Cons.prems(1) obtain s1 where s1: "output_step sr u (a, l) s = Inr s1"
    "for_each (output_step sr u) (zip [Suc a ..< Suc a + length ls] ls) s1 = Inr s'"
    unfolding up by (auto elim!: bind_e_InrE)
  note e = output_step_effect [OF s1(1) Cons.prems(2)]
  from e have w1: "wrote_sequence_region s1 = {x. \<exists>j < Suc a. keep_scaffold u j = Some x}"
    by simp
  note ih = Cons.IH [OF s1(2) w1]
  have k: "\<forall>lc. a \<le> lc \<and> lc < a + length (l # ls) \<and> gff_line_status_dict u lc = Some KEEP
          \<longrightarrow> gff_converted_line_dict u lc \<noteq> None"
  proof (intro allI impI)
    fix lc assume h: "a \<le> lc \<and> lc < a + length (l # ls) \<and> gff_line_status_dict u lc = Some KEEP"
    show "gff_converted_line_dict u lc \<noteq> None"
    proof (cases "lc = a")
      case True
      with e h show ?thesis by simp
    next
      case False
      with h have "Suc a \<le> lc \<and> lc < Suc a + length ls \<and> gff_line_status_dict u lc = Some KEEP"
        by simp
      with ih show ?thesis by blast
    qed
  qed
  have f: "updated_file s' = updated_file s
             @ concat (map (written_for sr u) [a ..< a + length (l # ls)])"
    unfolding up using e ih by simp
  have w: "wrote_sequence_region s' = {x. \<exists>j < a + length (l # ls). keep_scaffold u j = Some x}"
    using ih by simp
  have r: "removed_file s' = removed_file s
        @ map snd (filter (\<lambda>e. is_removed (gff_line_status_dict u (fst e)))
                     (zip [a ..< a + length (l # ls)] (l # ls)))"
    unfolding up using e ih by simp
  from f w r k show ?case by blast
qed

text \<open>
  C7. When \<open>update\<close> returns, with \<open>u\<close> the dispositions of the second pass: the updated
  file holds, line by line in file order, what \<open>written_for\<close> says, so every KEEP line
  contributes its converted text exactly once (after the region line of its column 1 when
  it is the first such line), every HEADER line its text, and no other line anything; the
  updated tally is the number of KEEP lines; the removed file holds the original text of
  the removed lines in order and the removed tally is its length; and the two tallies add up
  to the number of non-blank lines before the first \<open>##FASTA\<close> line that do not start
  with \<open>#\<close>. Header lines are in neither tally.
\<close>

theorem conservation:
  assumes "update alignment_list gff = Inr out"
  shows "\<exists>u sequence_regions.
       classify alignment_list gff = Inr u
     \<and> output_sequence_region alignment_list = Inr sequence_regions
     \<and> updated_file out
         = concat (map (written_for sequence_regions u) [0 ..< length (body_lines gff)])
     \<and> (\<forall>lc < length (body_lines gff).
           gff_line_status_dict u lc = Some KEEP \<longrightarrow> gff_converted_line_dict u lc \<noteq> None)
     \<and> updated_count out
         = length (filter (\<lambda>lc. gff_line_status_dict u lc = Some KEEP)
                     [0 ..< length (body_lines gff)])
     \<and> removed_file out
         = map (\<lambda>lc. body_lines gff ! lc)
             (filter (\<lambda>lc. is_removed (gff_line_status_dict u lc))
                [0 ..< length (body_lines gff)])
     \<and> removed_count out = length (removed_file out)
     \<and> updated_count out + removed_count out
         = length (filter (\<lambda>l. \<not> is_comment l) (body_lines gff))"
proof -
  from assms obtain rs u where rs: "find_root_features gff = Inr rs"
    and u: "update_features (alignment_dict_of alignment_list) rs gff = Inr u"
    and o: "output_features alignment_list u = Inr out"
    by (auto simp: update_def elim!: bind_e_InrE)
  let ?N = "numbered gff" and ?roots = "gff_line_root_list rs" and ?B = "body_lines gff"
  let ?st = "gff_line_status_dict u"
  note ctx = tree_ctx [OF rs]
  from u have run: "for_lines (update_step (alignment_dict_of alignment_list) ?roots
                     (gff_root_line_dict rs)) gff upd_init = Inr u"
    by (simp add: update_features_def)
  have nx: "?N = [] @ numbered gff" by simp
  from update_loop_inv [OF ctx upd_inv_init nx run]
  have inv: "upd_inv ?N ?roots ?B u" by simp
  have ll: "gff_line_list u = ?B" by (rule upd_invD(2) [OF inv])
  from inv have tk: "take (length ?B) ?N = ?B" and le: "length ?B \<le> length ?N"
    by (simp_all add: upd_inv_def)
  from o obtain sr where sr: "output_sequence_region alignment_list = Inr sr"
    and loop: "for_each (output_step sr u) (zip [0 ..< length ?B] ?B) out_init = Inr out"
    by (auto simp: output_features_def ll elim!: bind_e_InrE)
  have cl: "classify alignment_list gff = Inr u"
    using rs u by (simp add: classify_def bind_e_def)
  have loop0: "for_each (output_step sr u) (zip [0 ..< 0 + length ?B] ?B) out_init = Inr out"
    using loop by simp
  have w0: "wrote_sequence_region out_init = {x. \<exists>j < 0. keep_scaffold u j = Some x}"
    by (simp add: out_init_def)
  note eff = output_loop_effect [OF loop0 w0]
  have uf: "updated_file out = concat (map (written_for sr u) [0 ..< length ?B])"
    using eff by (simp add: out_init_def)
  have kc: "\<forall>lc < length ?B. ?st lc = Some KEEP \<longrightarrow> gff_converted_line_dict u lc \<noteq> None"
    using eff by simp
  have rf: "removed_file out
         = map (\<lambda>lc. ?B ! lc) (filter (\<lambda>lc. is_removed (?st lc)) [0 ..< length ?B])"
  proof -
    have "removed_file out = map snd (filter (\<lambda>e. is_removed (?st (fst e)))
                     (zip [0 ..< length ?B] ?B))"
      using eff by (simp add: out_init_def)
    also have "zip [0 ..< length ?B] ?B = map (\<lambda>i. (i, ?B ! i)) [0 ..< length ?B]"
      by (rule nth_equalityI) simp_all
    also have "map snd (filter (\<lambda>e. is_removed (?st (fst e)))
                     (map (\<lambda>i. (i, ?B ! i)) [0 ..< length ?B]))
          = map (\<lambda>lc. ?B ! lc) (filter (\<lambda>lc. is_removed (?st lc)) [0 ..< length ?B])"
      by (simp add: filter_map comp_def)
    finally show ?thesis .
  qed
  from output_loop_counts [OF loop]
  have cnt: "updated_count out
          = length (filter (\<lambda>e. ?st (fst e) = Some KEEP) (zip [0 ..< length ?B] ?B))"
    "removed_count out
          = length (filter (\<lambda>e. is_removed (?st (fst e))) (zip [0 ..< length ?B] ?B))"
    "length (removed_file out)
          = length (filter (\<lambda>e. is_removed (?st (fst e))) (zip [0 ..< length ?B] ?B))"
    by (simp_all add: out_init_def)
  have uc: "updated_count out = length (filter (\<lambda>k. ?st k = Some KEEP) [0 ..< length ?B])"
    unfolding cnt(1) by (rule filter_fst_zip) simp
  have rc: "removed_count out = length (filter (\<lambda>k. is_removed (?st k)) [0 ..< length ?B])"
    unfolding cnt(2) by (rule filter_fst_zip) simp
  have part: "length (filter (\<lambda>k. ?st k = Some KEEP) [0 ..< length ?B])
            + length (filter (\<lambda>k. is_removed (?st k)) [0 ..< length ?B])
            = length (filter (\<lambda>k. \<not> is_comment (?N ! k)) [0 ..< length ?B])"
  proof (rule filter_partition_count)
    fix k assume "k \<in> set [0 ..< length ?B]"
    then have k: "k < length ?B" by simp
    from upd_invD(5) [OF inv k]
    show "(\<not> is_comment (?N ! k) \<longleftrightarrow> ?st k = Some KEEP \<or> is_removed (?st k))
          \<and> \<not> (?st k = Some KEEP \<and> is_removed (?st k))"
      by (auto simp: is_removed_def split: if_splits)
  qed
  have "map (\<lambda>k. ?N ! k) [0 ..< length ?B] = map (\<lambda>k. ?B ! k) [0 ..< length ?B]"
  proof (rule map_cong [OF refl])
    fix k assume "k \<in> set [0 ..< length ?B]"
    then have k: "k < length ?B" by simp
    have "?B ! k = take (length ?B) ?N ! k" using tk by simp
    also have "\<dots> = ?N ! k" using k by simp
    finally show "?N ! k = ?B ! k" by simp
  qed
  also have "\<dots> = ?B" by (rule map_nth)
  finally have "?B = map (\<lambda>k. ?N ! k) [0 ..< length ?B]" by simp
  then have "filter (\<lambda>l. \<not> is_comment l) ?B
          = filter (\<lambda>l. \<not> is_comment l) (map (\<lambda>k. ?N ! k) [0 ..< length ?B])" by simp
  then have "length (filter (\<lambda>l. \<not> is_comment l) ?B)
          = length (filter (\<lambda>k. \<not> is_comment (?N ! k)) [0 ..< length ?B])"
    by (simp add: filter_map comp_def)
  with uc rc part cnt have tot: "updated_count out + removed_count out
           = length (filter (\<lambda>l. \<not> is_comment l) ?B)"
    and rl: "removed_count out = length (removed_file out)" by simp_all
  from cl sr uf kc uc rf rl tot show ?thesis by blast
qed

theorem conservation_witness:
  "\<exists>out u sr. update [example_alignment] conservation_gff = Inr out
     \<and> classify [example_alignment] conservation_gff = Inr u
     \<and> output_sequence_region [example_alignment] = Inr sr
     \<and> updated_file out = concat (map (written_for sr u) [0 ..< 3])
     \<and> updated_file out =
         [''##gff-version 3'' @ [NL],
          ''##sequence-region chr1_new 1001 1100'' @ [NL],
          join [TAB] [''chr1_new'', ''.'', ''gene'', ''1050'', ''1080'', ''.'', ''+'', ''.'',
                      ''ID=g1'' @ [NL]]]
     \<and> removed_file out = [conservation_gff ! 3]
     \<and> updated_count out = 1 \<and> removed_count out = 1
     \<and> updated_count out + removed_count out
         = length (filter (\<lambda>l. \<not> is_comment l) (body_lines conservation_gff))
     \<and> length (filter (\<lambda>l. \<not> is_comment l) (body_lines conservation_gff)) = 2"
proof -
  have run: "case update [example_alignment] conservation_gff of
               Inl e \<Rightarrow> False
             | Inr out \<Rightarrow>
                 updated_file out =
                   [''##gff-version 3'' @ [NL],
                    ''##sequence-region chr1_new 1001 1100'' @ [NL],
                    join [TAB] [''chr1_new'', ''.'', ''gene'', ''1050'', ''1080'', ''.'', ''+'',
                                ''.'', ''ID=g1'' @ [NL]]]
                 \<and> removed_file out = [conservation_gff ! 3]
                 \<and> updated_count out = 1 \<and> removed_count out = 1"
    by code_simp
  then obtain out where out: "update [example_alignment] conservation_gff = Inr out"
    by (cases "update [example_alignment] conservation_gff") simp_all
  with run have c: "updated_file out =
                   [''##gff-version 3'' @ [NL],
                    ''##sequence-region chr1_new 1001 1100'' @ [NL],
                    join [TAB] [''chr1_new'', ''.'', ''gene'', ''1050'', ''1080'', ''.'', ''+'',
                                ''.'', ''ID=g1'' @ [NL]]]"
    "removed_file out = [conservation_gff ! 3]" "updated_count out = 1" "removed_count out = 1"
    by simp_all
  have n: "length (body_lines conservation_gff) = 3" by code_simp
  have f: "length (filter (\<lambda>l. \<not> is_comment l) (body_lines conservation_gff)) = 2"
    by code_simp
  from conservation [OF out] obtain u sr where
    t: "classify [example_alignment] conservation_gff = Inr u"
       "output_sequence_region [example_alignment] = Inr sr"
       "updated_file out = concat (map (written_for sr u) [0 ..< 3])"
       "updated_count out + removed_count out
         = length (filter (\<lambda>l. \<not> is_comment l) (body_lines conservation_gff))"
    unfolding n by blast
  from out t c f show ?thesis by blast
qed

subsection \<open>Uncovered and ambiguous endpoints\<close>

lemma update_feature_bad:
  assumes "adict (hd (split_on TAB line)) = Some mappings"
    and "nth_py (split_on TAB line) 3 = Inr t3" and "py_int t3 = Inr start"
    and "nth_py (split_on TAB line) 4 = Inr t4" and "py_int t4 = Inr end'"
    and "length (covering start mappings) \<noteq> 1 \<or> length (covering end' mappings) \<noteq> 1"
  shows "update_feature adict roots groups line s = remove_group roots groups POSITION_REMOVED s"
  using assms by (simp add: update_feature_def bind_e_def Let_def)

lemma remove_group_Inr:
  assumes "remove_group roots groups v s = Inr s'"
  shows "s' = s\<lparr>gff_line_status_dict :=
                mark_group (groups (roots ! line_num s)) v (gff_line_status_dict s)\<rparr>"
  using assms by (auto simp: remove_group_def nth_py_def bind_e_def split: if_splits)

lemma position_removed_final:
  assumes ctx: "roots_ok N roots" "groups_ok roots groups"
    and nc: "\<not> is_comment line"
    and present: "adict (hd (split_on TAB line)) = Some mappings"
    and coords: "nth_py (split_on TAB line) 3 = Inr t3" "py_int t3 = Inr start"
      "nth_py (split_on TAB line) 4 = Inr t4" "py_int t4 = Inr end'"
    and bad: "length (covering start mappings) \<noteq> 1 \<or> length (covering end' mappings) \<noteq> 1"
  shows "upd_inv N roots seen s \<Longrightarrow> N = seen @ numbered ls \<Longrightarrow>
         for_lines (update_step adict roots groups) ls s = Inr fin \<Longrightarrow>
         mid \<in> set (loop_states (update_step adict roots groups) ls s) \<Longrightarrow>
         line_num mid = k \<Longrightarrow> k < length (seen @ body_lines ls) \<Longrightarrow>
         line = (seen @ body_lines ls) ! k \<Longrightarrow>
         \<not> is_removed (gff_line_status_dict mid k) \<Longrightarrow>
         (\<forall>j \<in> set (groups (roots ! k)). gff_line_status_dict fin j = Some POSITION_REMOVED)
         \<and> gff_converted_line_dict fin k = None"
proof (induction ls arbitrary: seen s)
  case Nil
  then have "mid = s" by simp
  with Nil.prems(1,5,6) show ?case by (simp add: upd_inv_def)
next
  case (Cons l ls)
  let ?step = "update_step adict roots groups"
  have lns: "line_num s = length seen" by (rule upd_invD(1) [OF Cons.prems(1)])
  obtain c where c: "?step l s = Inr c"
    using Cons.prems(3) by (cases "?step l s") simp_all
  show ?case
  proof (cases "is_blank l")
    case True
    with c have cs: "c = Next s" by (simp add: update_step_blank)
    with Cons.prems(3) c have run: "for_lines ?step ls s = Inr fin" by simp
    from Cons.prems(4) c cs have m: "mid \<in> set (loop_states ?step ls s)"
      using loop_states_head [of s ?step ls] by auto
    from Cons.prems(2) True have nx: "N = seen @ numbered ls" by simp
    from Cons.prems(6,7) True have k: "k < length (seen @ body_lines ls)"
      "line = (seen @ body_lines ls) ! k" by simp_all
    from Cons.IH [OF Cons.prems(1) nx run m Cons.prems(5) k Cons.prems(8)] show ?thesis .
  next
    case nb: False
    show ?thesis
    proof (cases "is_fasta l")
      case True
      with nb Cons.prems(2) have nx: "N = seen @ l # []" by simp
      from update_step_fasta_inv [OF Cons.prems(1) nx nb True c] obtain s' where
        s': "c = Stop s'" "upd_inv N roots seen s'" by blast
      from Cons.prems(4) c s'(1) have "mid = s \<or> mid = s'" by simp
      with lns upd_invD(1) [OF s'(2)] Cons.prems(5) have "k = length seen" by auto
      with Cons.prems(6) nb True show ?thesis by simp
    next
      case nf: False
      with nb Cons.prems(2) have nx: "N = seen @ l # numbered ls" by simp
      from update_step_inv [OF ctx Cons.prems(1) nx nb nf c] obtain s1 where
        s1: "c = Next s1" "upd_inv N roots (seen @ [l]) s1" "keeps_decided s s1" by blast
      from Cons.prems(3) c s1(1) have run: "for_lines ?step ls s1 = Inr fin" by simp
      from nx have nx1: "N = (seen @ [l]) @ numbered ls" by simp
      from nb nf have bl: "seen @ body_lines (l # ls) = (seen @ [l]) @ body_lines ls" by simp
      show ?thesis
      proof (cases "mid = s")
        case False
        with Cons.prems(4) c s1(1) have m: "mid \<in> set (loop_states ?step ls s1)" by simp
        from Cons.prems(6,7) bl have k: "k < length ((seen @ [l]) @ body_lines ls)"
          "line = ((seen @ [l]) @ body_lines ls) ! k" by simp_all
        from Cons.IH [OF s1(2) nx1 run m Cons.prems(5) k Cons.prems(8)] show ?thesis .
      next
        case True
        with lns Cons.prems(5) have kn: "k = length seen" by simp
        with Cons.prems(7) nb nf have ll: "line = l" by simp
        from True Cons.prems(8) kn have nr: "\<not> is_removed (gff_line_status_dict s (length seen))"
          by simp
        have kd: "keeps_decided s1 fin"
          using update_loop_inv [OF ctx s1(2) nx1 run] by simp
        have Nk: "N ! k = l" "k < length N" using nx kn by simp_all
        from nc ll have ncl: "\<not> is_comment l" by simp
        from nb ncl c have "\<exists>s2. update_feature adict roots groups l s = Inr s2
                                \<and> c = Next (append_line l s2)"
        proof (cases rule: update_step_featureE)
          case (process s2)
          then show ?thesis by blast
        next
          case skip
          with upd_invD(6) [OF Cons.prems(1), of "length seen"] lns nr show ?thesis by auto
        qed
        then obtain s2 where s2: "update_feature adict roots groups l s = Inr s2"
          "c = Next (append_line l s2)" by blast
        have "update_feature adict roots groups line s
                = remove_group roots groups POSITION_REMOVED s"
          using present coords bad by (rule update_feature_bad)
        with s2(1) ll have "remove_group roots groups POSITION_REMOVED s = Inr s2" by simp
        from remove_group_Inr [OF this] have s2eq:
          "s2 = s\<lparr>gff_line_status_dict := mark_group (groups (roots ! line_num s))
                      POSITION_REMOVED (gff_line_status_dict s)\<rparr>" .
        from s2(2) s1(1) have s1eq: "s1 = append_line l s2" by simp
        have st1: "\<And>j. j \<in> set (groups (roots ! k))
                     \<Longrightarrow> gff_line_status_dict s1 j = Some POSITION_REMOVED"
          using s1eq s2eq lns kn by (simp add: mark_group_apply)
        have cv1: "gff_converted_line_dict s1 k = None"
        proof -
          have "gff_converted_line_dict s1 k = gff_converted_line_dict s k"
            using s1eq s2eq by simp
          also have "\<dots> = None"
            using upd_invD(7) [OF Cons.prems(1), of k] kn Nk nc ll by simp
          finally show ?thesis .
        qed
        have a: "\<forall>j \<in> set (groups (roots ! k)). gff_line_status_dict fin j = Some POSITION_REMOVED"
        proof
          fix j assume j: "j \<in> set (groups (roots ! k))"
          from st1 [OF j] have "is_removed (gff_line_status_dict s1 j)"
            by (simp add: is_removed_def)
          with kd have "gff_line_status_dict fin j = gff_line_status_dict s1 j"
            by (simp add: keeps_decided_def)
          with st1 [OF j] show "gff_line_status_dict fin j = Some POSITION_REMOVED" by simp
        qed
        have "k < line_num s1" using upd_invD(1) [OF s1(2)] kn by simp
        with kd have "gff_converted_line_dict fin k = gff_converted_line_dict s1 k"
          by (simp add: keeps_decided_def)
        with cv1 a show ?thesis by simp
      qed
    qed
  qed
qed

theorem group_of_earlier_sequence_removal_counterexample:
  "dispositions [example_alignment] mixed_gff [0, 1]
     = Inr [Some SEQUENCE_REMOVED, Some SEQUENCE_REMOVED]
   \<and> alignment_dict_of [example_alignment] (hd (split_on TAB (mixed_gff ! 1)))
       = Some [example_alignment]
   \<and> py_int (split_on TAB (mixed_gff ! 1) ! 3) = Inr 90
   \<and> covering 90 [example_alignment] = []"
  by code_simp

text \<open>
  C3, amended. Let the second pass reach feature line \<open>k\<close> (state \<open>mid\<close>, \<open>line_num mid = k\<close>)
  while no earlier line of its group has removed it. If its sequence id is in the alignment
  index and the rows covering its start, or those covering its end, are not exactly one
  (none, or two or more), then at the end of the pass every line of its group is
  POSITION\_REMOVED and the line has no converted text. (A line already removed when it is
  reached is skipped and keeps the disposition of the earlier removal.)
\<close>

theorem uncovered_or_ambiguous_is_position_removed:
  assumes rs: "find_root_features gff = Inr rs"
    and fin: "update_features adict rs gff = Inr fin"
    and mid: "mid \<in> set (loop_states
                (update_step adict (gff_line_root_list rs) (gff_root_line_dict rs)) gff upd_init)"
    and k: "line_num mid = k" "k < length (body_lines gff)"
    and line: "line = body_lines gff ! k" "\<not> is_comment line"
    and undecided: "\<not> is_removed (gff_line_status_dict mid k)"
    and present: "adict (hd (split_on TAB line)) = Some mappings"
    and coords: "nth_py (split_on TAB line) 3 = Inr t3" "py_int t3 = Inr start"
      "nth_py (split_on TAB line) 4 = Inr t4" "py_int t4 = Inr end'"
    and bad: "length (covering start mappings) \<noteq> 1 \<or> length (covering end' mappings) \<noteq> 1"
  shows "(\<forall>j \<in> set (gff_root_line_dict rs (gff_line_root_list rs ! k)).
            gff_line_status_dict fin j = Some POSITION_REMOVED)
         \<and> gff_converted_line_dict fin k = None"
proof -
  note ctx = tree_ctx [OF rs]
  from fin have run: "for_lines (update_step adict (gff_line_root_list rs)
                        (gff_root_line_dict rs)) gff upd_init = Inr fin"
    by (simp add: update_features_def)
  have nx: "numbered gff = [] @ numbered gff" by simp
  have k': "k < length ([] @ body_lines gff)" "line = ([] @ body_lines gff) ! k"
    using k(2) line(1) by simp_all
  show ?thesis
    using ctx line(2) present coords bad upd_inv_init nx run mid k(1) k' undecided
    by (rule position_removed_final)
qed

theorem uncovered_or_ambiguous_is_position_removed_witness:
  "\<exists>rs fin. find_root_features ambiguous_gff = Inr rs
     \<and> update_features (alignment_dict_of [overlap_first, overlap_second]) rs ambiguous_gff = Inr fin
     \<and> line_num upd_init = 0 \<and> 0 < length (body_lines ambiguous_gff)
     \<and> \<not> is_comment (body_lines ambiguous_gff ! 0)
     \<and> \<not> is_removed (gff_line_status_dict upd_init 0)
     \<and> alignment_dict_of [overlap_first, overlap_second]
           (hd (split_on TAB (body_lines ambiguous_gff ! 0)))
         = Some [overlap_first, overlap_second]
     \<and> covering 150 [overlap_first, overlap_second] = [overlap_first, overlap_second]
     \<and> gff_line_status_dict fin 0 = Some POSITION_REMOVED
     \<and> gff_line_status_dict fin 1 = Some POSITION_REMOVED
     \<and> gff_converted_line_dict fin 0 = None"
proof -
  let ?A = "alignment_dict_of [overlap_first, overlap_second]"
  have run: "case find_root_features ambiguous_gff of
               Inl e \<Rightarrow> False
             | Inr rs \<Rightarrow>
                (case update_features ?A rs ambiguous_gff of
                   Inl e \<Rightarrow> False
                 | Inr fin \<Rightarrow> 0 \<in> set (gff_root_line_dict rs (gff_line_root_list rs ! 0))
                     \<and> 1 \<in> set (gff_root_line_dict rs (gff_line_root_list rs ! 0)))"
    by code_simp
  then obtain rs where rs: "find_root_features ambiguous_gff = Inr rs"
    by (cases "find_root_features ambiguous_gff") simp_all
  with run obtain fin where fin: "update_features ?A rs ambiguous_gff = Inr fin"
    by (cases "update_features ?A rs ambiguous_gff") simp_all
  from run rs fin have g: "0 \<in> set (gff_root_line_dict rs (gff_line_root_list rs ! 0))"
    "1 \<in> set (gff_root_line_dict rs (gff_line_root_list rs ! 0))" by simp_all
  have mid: "upd_init \<in> set (loop_states (update_step ?A (gff_line_root_list rs)
                 (gff_root_line_dict rs)) ambiguous_gff upd_init)"
    by (rule loop_states_head)
  have k: "line_num upd_init = 0" "0 < length (body_lines ambiguous_gff)"
    by (simp add: upd_init_def, code_simp)
  have nc: "\<not> is_comment (body_lines ambiguous_gff ! 0)" by code_simp
  have und: "\<not> is_removed (gff_line_status_dict upd_init 0)"
    by (simp add: upd_init_def is_removed_def)
  have present: "?A (hd (split_on TAB (body_lines ambiguous_gff ! 0)))
         = Some [overlap_first, overlap_second]" by code_simp
  have coords: "nth_py (split_on TAB (body_lines ambiguous_gff ! 0)) 3 = Inr ''150''"
    "py_int ''150'' = Inr 150"
    "nth_py (split_on TAB (body_lines ambiguous_gff ! 0)) 4 = Inr ''180''"
    "py_int ''180'' = Inr 180" by code_simp+
  have cov: "covering 150 [overlap_first, overlap_second] = [overlap_first, overlap_second]"
    by code_simp
  then have bad: "length (covering 150 [overlap_first, overlap_second]) \<noteq> 1
                  \<or> length (covering 180 [overlap_first, overlap_second]) \<noteq> 1" by simp
  have "(\<forall>j \<in> set (gff_root_line_dict rs (gff_line_root_list rs ! 0)).
            gff_line_status_dict fin j = Some POSITION_REMOVED)
         \<and> gff_converted_line_dict fin 0 = None"
    using rs fin mid k refl nc und present coords bad
    by (rule uncovered_or_ambiguous_is_position_removed)
  with g rs fin k nc und present cov show ?thesis by blast
qed

subsection \<open>The text of a region line\<close>

lemma digit_char_in: "d < 10 \<Longrightarrow> digit_char d \<in> set ''0123456789''"
proof -
  assume "d < 10"
  then have "d = 0 \<or> d = 1 \<or> d = 2 \<or> d = 3 \<or> d = 4 \<or> d = 5 \<or> d = 6 \<or> d = 7 \<or> d = 8 \<or> d = 9"
    by arith
  then show ?thesis by (auto simp: digit_char_def)
qed

lemma show_nat_digits: "set (show_nat n) \<subseteq> set ''0123456789''"
proof (induction n rule: show_nat.induct)
  case (1 n)
  show ?case
  proof (cases "n < 10")
    case True
    then show ?thesis using digit_char_in [of n] by (subst show_nat.simps) simp
  next
    case False
    have "n mod 10 < 10" by simp
    from digit_char_in [OF this] 1 [OF False] False show ?thesis
      by (subst show_nat.simps) simp
  qed
qed

lemma py_str_chars: "set (py_str i) \<subseteq> set ''-0123456789''"
proof -
  have sub: "set ''0123456789'' \<subseteq> set ''-0123456789''" by (rule set_subset_Cons)
  have d: "\<And>m. set (show_nat m) \<subseteq> set ''-0123456789''"
    using show_nat_digits sub by (rule subset_trans)
  have m: "CHR ''-'' \<in> set ''-0123456789''" by (rule list.set_intros(1))
  show ?thesis
  proof (cases "i < 0")
    case True
    then have "set (py_str i) = insert CHR ''-'' (set (show_nat (nat (- i))))"
      by (simp only: py_str_def if_True list.set)
    with m d show ?thesis by (simp only: insert_subset)
  next
    case False
    then have "py_str i = show_nat (nat i)" by (simp only: py_str_def if_False)
    with d show ?thesis by (simp only:)
  qed
qed

lemma py_str_no_tab: "TAB \<notin> set (py_str i)"
proof -
  have "TAB \<notin> set ''-0123456789''" by (simp add: TAB_def)
  with py_str_chars [of i] show ?thesis by (rule contra_subsetD)
qed

lemma py_str_no_space: "CHR '' '' \<notin> set (py_str i)"
proof -
  have "CHR '' '' \<notin> set ''-0123456789''" by simp
  with py_str_chars [of i] show ?thesis by (rule contra_subsetD)
qed

lemma split_at_first:
  "u @ c # p = v @ c # q \<Longrightarrow> c \<notin> set u \<Longrightarrow> c \<notin> set v \<Longrightarrow> u = v \<and> p = q"
proof (induction u arbitrary: v)
  case Nil
  then show ?case by (cases v) simp_all
next
  case (Cons a u)
  show ?case
  proof (cases v)
    case Nil
    with Cons.prems show ?thesis by simp
  next
    case (Cons b v')
    with Cons.prems have "a = b" "u @ c # p = v' @ c # q" "c \<notin> set u" "c \<notin> set v'"
      by simp_all
    with Cons.IH [of v'] Cons show ?thesis by simp
  qed
qed

lemma region_line_inj:
  assumes "region_line x a b = region_line y c d"
  shows "x = y"
proof -
  let ?sp = "CHR '' ''"
  from assms have "x @ ?sp # py_str a @ ?sp # py_str b = y @ ?sp # py_str c @ ?sp # py_str d"
    by (simp add: region_line_def)
  then have "rev (x @ ?sp # py_str a @ ?sp # py_str b) = rev (y @ ?sp # py_str c @ ?sp # py_str d)"
    by (rule arg_cong)
  then have e: "rev (py_str b) @ ?sp # (rev (py_str a) @ ?sp # rev x)
              = rev (py_str d) @ ?sp # (rev (py_str c) @ ?sp # rev y)" by simp
  have nb: "?sp \<notin> set (rev (py_str b))" "?sp \<notin> set (rev (py_str d))"
    "?sp \<notin> set (rev (py_str a))" "?sp \<notin> set (rev (py_str c))"
    using py_str_no_space by simp_all
  from split_at_first [OF e nb(1,2)]
  have 1: "rev (py_str a) @ ?sp # rev x = rev (py_str c) @ ?sp # rev y" by (rule conjunct2)
  from split_at_first [OF 1 nb(3,4)] have "rev x = rev y" by (rule conjunct2)
  then show ?thesis by simp
qed

lemma region_line_no_tab:
  assumes "TAB \<notin> set x"
  shows "TAB \<notin> set (region_line x a b)"
proof -
  have "TAB \<notin> set ''##sequence-region ''" "TAB \<noteq> CHR '' ''" "TAB \<noteq> NL"
    by (simp_all add: TAB_def NL_def)
  with assms py_str_no_tab [of a] py_str_no_tab [of b] show ?thesis
    by (simp add: region_line_def)
qed

lemma join_has_sep:
  assumes "length ts \<ge> 2"
  shows "c \<in> set (join [c] ts)"
proof -
  from assms obtain t u rest where "ts = t # u # rest"
    by (cases ts; cases "tl ts") auto
  then show ?thesis by simp
qed

lemma strip_keeps_prefix:
  assumes "p \<noteq> []" "\<not> is_space (hd p)" "\<not> is_space (last p)"
  shows "startswith (strip (p @ r)) p"
proof -
  have a: "dropWhile is_space (p @ r) = p @ r"
    using assms(1,2) by (cases p) simp_all
  have "\<exists>r'. dropWhile is_space (rev r @ rev p) = r' @ rev p"
  proof (cases "\<forall>x \<in> set (rev r). is_space x")
    case True
    then have "\<And>x. x \<in> set (rev r) \<Longrightarrow> is_space x" by blast
    then have "dropWhile is_space (rev r @ rev p) = dropWhile is_space (rev p)"
      by (rule dropWhile_append2)
    also have "\<dots> = rev p" using assms(1,3) by (cases "rev p") (auto simp: hd_rev)
    finally have "dropWhile is_space (rev r @ rev p) = [] @ rev p" by simp
    then show ?thesis by (rule exI)
  next
    case False
    then obtain x where "x \<in> set (rev r)" "\<not> is_space x" by blast
    then have "dropWhile is_space (rev r @ rev p) = dropWhile is_space (rev r) @ rev p"
      by (rule dropWhile_append1)
    then show ?thesis by (rule exI)
  qed
  then obtain r' where "dropWhile is_space (rev r @ rev p) = r' @ rev p" by (rule exE)
  then have "strip (p @ r) = p @ rev r'" by (simp add: strip_def a)
  then show ?thesis by (simp add: startswith_def)
qed

lemma region_line_startswith:
  "startswith (strip (region_line x a b)) ''##sequence-region''"
proof -
  have "region_line x a b = ''##sequence-region'' @ (CHR '' '' # x @ '' '' @ py_str a @ '' '' @ py_str b @ [NL])"
    by (simp add: region_line_def)
  moreover have "startswith (strip (''##sequence-region'' @ (CHR '' '' # x @ '' '' @ py_str a @ '' '' @ py_str b @ [NL]))) ''##sequence-region''"
    by (rule strip_keeps_prefix) (simp_all add: is_space_def)
  ultimately show ?thesis by (simp only:)
qed

subsection \<open>The region lines computed from the table\<close>

lemma sorted_run_take:
  "sorted (map key (x # xs)) \<Longrightarrow>
   takeWhile (\<lambda>y. key y = key x) xs = filter (\<lambda>y. key y = key x) xs"
proof (induction xs)
  case Nil
  then show ?case by simp
next
  case (Cons y ys)
  from Cons.prems have s: "sorted (map key (x # ys))" and le: "key x \<le> key y"
    and ys: "\<forall>z \<in> set ys. key y \<le> key z" by auto
  show ?case
  proof (cases "key y = key x")
    case True
    with Cons.IH [OF s] show ?thesis by simp
  next
    case False
    with le have "key x < key y" by simp
    with ys have "\<forall>z \<in> set ys. key z \<noteq> key x" by auto
    then have "filter (\<lambda>y. key y = key x) ys = []" by (simp add: filter_empty_conv)
    with False show ?thesis by simp
  qed
qed

lemma sorted_run_drop:
  "sorted (map key (x # xs)) \<Longrightarrow>
   dropWhile (\<lambda>y. key y = key x) xs = filter (\<lambda>y. key y \<noteq> key x) xs"
proof (induction xs)
  case Nil
  then show ?case by simp
next
  case (Cons y ys)
  from Cons.prems have s: "sorted (map key (x # ys))" and le: "key x \<le> key y"
    and ys: "\<forall>z \<in> set ys. key y \<le> key z" by auto
  show ?case
  proof (cases "key y = key x")
    case True
    with Cons.IH [OF s] show ?thesis by simp
  next
    case False
    with le have "key x < key y" by simp
    with ys have "\<forall>z \<in> set ys. key z \<noteq> key x" by auto
    then have "filter (\<lambda>y. key y \<noteq> key x) ys = ys" by (simp add: filter_id_conv)
    with False show ?thesis by simp
  qed
qed

lemma min_py_Min:
  assumes "pos \<noteq> []"
  shows "min_py pos = Inr (Min (set pos))"
proof -
  from assms obtain a rest where p: "pos = a # rest" by (cases pos) simp_all
  then have "min_py pos = Inr (fold min rest a)" by (simp add: min_py_def)
  also have "fold min rest a = Min (set (a # rest))" by (rule Min.set_eq_fold [symmetric])
  finally show ?thesis using p by (simp only:)
qed

lemma max_py_Max:
  assumes "pos \<noteq> []"
  shows "max_py pos = Inr (Max (set pos))"
proof -
  from assms obtain a rest where p: "pos = a # rest" by (cases pos) simp_all
  then have "max_py pos = Inr (fold max rest a)" by (simp add: max_py_def)
  also have "fold max rest a = Max (set (a # rest))" by (rule Max.set_eq_fold [symmetric])
  finally show ?thesis using p by (simp only:)
qed

lemma region_step_run:
  assumes "run \<noteq> []"
  shows "region_step (k, run) d =
     Inr (d(k \<mapsto> region_line k
        (Min (set (concat (map (\<lambda>a. [new_start a, new_end a]) run))) + 1)
        (Max (set (concat (map (\<lambda>a. [new_start a, new_end a]) run))))))"
proof -
  from assms have "concat (map (\<lambda>a. [new_start a, new_end a]) run) \<noteq> []"
    by (cases run) simp_all
  then show ?thesis
    by (simp add: region_step_def Let_def min_py_Min max_py_Max bind_e_def)
qed


lemma groupby_regions:
  "sorted (map new_id ys) \<Longrightarrow>
   for_each region_step (groupby new_id ys) d = Inr (expected_regions ys d)"
proof (induction "new_id :: alignment \<Rightarrow> string" ys arbitrary: d rule: groupby.induct)
  case 1
  have "expected_regions [] d = d" by (rule ext) (simp add: expected_regions_def)
  then show ?case by simp
next
  case (2 x xs)
  let ?k = "new_id x"
  let ?run = "x # takeWhile (\<lambda>y. new_id y = ?k) xs"
  let ?rest = "dropWhile (\<lambda>y. new_id y = ?k) xs"
  have tk: "takeWhile (\<lambda>y. new_id y = ?k) xs = filter (\<lambda>y. new_id y = ?k) xs"
    using "2.prems" by (rule sorted_run_take)
  have dr: "?rest = filter (\<lambda>y. new_id y \<noteq> ?k) xs"
    using "2.prems" by (rule sorted_run_drop)
  have run: "?run = filter (\<lambda>a. new_id a = ?k) (x # xs)" using tk by simp
  let ?d1 = "d(?k \<mapsto> region_line ?k (Min (set (new_coords (x # xs) ?k)) + 1)
                         (Max (set (new_coords (x # xs) ?k))))"
  have step: "region_step (?k, ?run) d = Inr ?d1"
    using region_step_run [of ?run ?k d] run by (simp add: new_coords_def)
  from "2.prems" have "sorted (map new_id xs)" by simp
  then have srt: "sorted (map new_id ?rest)" unfolding dr by (rule sorted_filter)
  have ih: "for_each region_step (groupby new_id ?rest) ?d1 = Inr (expected_regions ?rest ?d1)"
    using srt by (rule "2.hyps")
  have eq: "expected_regions ?rest ?d1 = expected_regions (x # xs) d"
  proof (rule ext)
    fix k
    show "expected_regions ?rest ?d1 k = expected_regions (x # xs) d k"
    proof (cases "k = ?k")
      case True
      then have "k \<notin> new_id ` set ?rest" unfolding dr by auto
      with True show ?thesis by (simp add: expected_regions_def)
    next
      case False
      have m: "k \<in> new_id ` set ?rest \<longleftrightarrow> k \<in> new_id ` set (x # xs)"
        unfolding dr using False by auto
      have "filter (\<lambda>a. new_id a = k) ?rest = filter (\<lambda>a. new_id a = k) (x # xs)"
        unfolding dr using False by (auto intro: filter_cong)
      then have c: "new_coords ?rest k = new_coords (x # xs) k" by (simp add: new_coords_def)
      show ?thesis using m c False unfolding expected_regions_def by simp
    qed
  qed
  have "for_each region_step (groupby new_id (x # xs)) d
          = bind_e (region_step (?k, ?run) d) (for_each region_step (groupby new_id ?rest))"
    by simp
  with step ih eq show ?case by (simp add: bind_e_def)
qed

lemma output_sequence_region_result:
  "output_sequence_region al = Inr (expected_regions al Map.empty)"
proof -
  let ?ys = "sort_key new_id al"
  have "sorted (map new_id ?ys)" by (rule sorted_sort_key)
  then have r: "output_sequence_region al = Inr (expected_regions ?ys Map.empty)"
    unfolding output_sequence_region_def by (rule groupby_regions)
  have "expected_regions ?ys Map.empty = expected_regions al Map.empty"
  proof (rule ext)
    fix k
    have "filter (\<lambda>a. new_id a = k) ?ys = filter (\<lambda>a. new_id a = k) al"
      by (rule sort_key_stable)
    then have "new_coords ?ys k = new_coords al k" by (simp add: new_coords_def)
    then show "expected_regions ?ys Map.empty k = expected_regions al Map.empty k"
      by (simp add: expected_regions_def)
  qed
  with r show ?thesis by simp
qed

subsection \<open>The converted texts the second pass leaves\<close>

lemma update_feature_keep_tab:
  assumes u: "update_feature adict roots groups line s = Inr s'"
    and k: "gff_line_status_dict s' (line_num s) = Some KEEP"
    and nk: "gff_line_status_dict s (line_num s) \<noteq> Some KEEP"
  shows "\<exists>c. gff_converted_line_dict s' (line_num s) = Some c \<and> TAB \<in> set c"
proof (cases "adict (hd (split_on TAB line))")
  case None
  with u have "remove_group roots groups SEQUENCE_REMOVED s = Inr s'"
    by (simp add: update_feature_def)
  from remove_group_Inr [OF this] k nk show ?thesis
    by (simp add: mark_group_apply split: if_splits)
next
  case (Some mappings)
  from u Some obtain t3 start t4 end' where
    p: "nth_py (split_on TAB line) 3 = Inr t3" "py_int t3 = Inr start"
       "nth_py (split_on TAB line) 4 = Inr t4" "py_int t4 = Inr end'"
    by (auto simp: update_feature_def Let_def elim!: bind_e_InrE)
  show ?thesis
  proof (cases "length (covering start mappings) \<noteq> 1 \<or> length (covering end' mappings) \<noteq> 1")
    case True
    have "update_feature adict roots groups line s
            = remove_group roots groups POSITION_REMOVED s"
      using Some p True by (rule update_feature_bad)
    with u have "remove_group roots groups POSITION_REMOVED s = Inr s'" by simp
    from remove_group_Inr [OF this] k nk show ?thesis
      by (simp add: mark_group_apply split: if_splits)
  next
    case False
    then obtain sm em where c: "covering start mappings = [sm]" "covering end' mappings = [em]"
      by (auto simp: length_Suc_conv)
    let ?toks = "(split_on TAB line)
                 [0 := new_id (hd mappings),
                  3 := py_str (start - old_start sm + new_start sm),
                  4 := py_str (end' - old_start em + new_start em)]"
    have "update_feature adict roots groups line s =
     Inr (s\<lparr>gff_line_status_dict := (gff_line_status_dict s)(line_num s \<mapsto> KEEP),
            gff_converted_line_dict := (gff_converted_line_dict s)(line_num s \<mapsto>
              join [TAB] ?toks)\<rparr>)"
      using Some p c by (rule update_feature_mapped)
    with u have cv: "gff_converted_line_dict s' (line_num s) = Some (join [TAB] ?toks)"
      by auto
    from p(3) have "4 < length (split_on TAB line)"
      by (simp add: nth_py_def split: if_splits)
    then have "length ?toks \<ge> 2" by simp
    then have "TAB \<in> set (join [TAB] ?toks)" by (rule join_has_sep)
    with cv show ?thesis by simp
  qed
qed

lemma update_step_comment_status:
  assumes "\<not> is_blank l" "is_comment l" "\<not> is_fasta l"
    "update_step adict roots groups l s = Inr c"
  obtains s' where "c = Next s'"
    "gff_converted_line_dict s' = (gff_converted_line_dict s)(line_num s \<mapsto> l)"
    "(gff_line_status_dict s' = (gff_line_status_dict s)(line_num s \<mapsto> SEQUENCE_REGION))
     \<or> (gff_line_status_dict s' = (gff_line_status_dict s)(line_num s \<mapsto> HEADER)
         \<and> \<not> startswith (strip l) ''##sequence-region'')"
proof (cases "startswith (strip l) ''##sequence-region''")
  case True
  with assms have "c = Next (append_line l
       (s\<lparr>gff_converted_line_dict := (gff_converted_line_dict s)(line_num s \<mapsto> l),
          gff_line_status_dict := (gff_line_status_dict s)(line_num s \<mapsto> SEQUENCE_REGION)\<rparr>))"
    by (simp add: update_step_def is_blank_def is_fasta_def is_comment_def Let_def)
  then show thesis by (rule that) simp_all
next
  case False
  with assms have "c = Next (append_line l
       (s\<lparr>gff_converted_line_dict := (gff_converted_line_dict s)(line_num s \<mapsto> l),
          gff_line_status_dict := (gff_line_status_dict s)(line_num s \<mapsto> HEADER)\<rparr>))"
    by (simp add: update_step_def is_blank_def is_fasta_def is_comment_def Let_def)
  then show thesis by (rule that) (simp_all add: False)
qed


lemma conv_okI:
  assumes "\<And>k. gff_line_status_dict s k = Some KEEP \<Longrightarrow>
             \<exists>c. gff_converted_line_dict s k = Some c \<and> TAB \<in> set c"
    and "\<And>k. gff_line_status_dict s k = Some HEADER \<Longrightarrow>
             \<exists>c. gff_converted_line_dict s k = Some c
                  \<and> \<not> startswith (strip c) ''##sequence-region''"
  shows "conv_ok s"
  unfolding conv_ok_def using assms by blast

lemma conv_okD:
  assumes "conv_ok s"
  shows "gff_line_status_dict s k = Some KEEP \<Longrightarrow>
             \<exists>c. gff_converted_line_dict s k = Some c \<and> TAB \<in> set c"
    and "gff_line_status_dict s k = Some HEADER \<Longrightarrow>
             \<exists>c. gff_converted_line_dict s k = Some c
                  \<and> \<not> startswith (strip c) ''##sequence-region''"
  using assms unfolding conv_ok_def by blast+

lemma conv_ok_same:
  assumes "conv_ok s" "gff_line_status_dict s' = gff_line_status_dict s"
    "gff_converted_line_dict s' = gff_converted_line_dict s"
  shows "conv_ok s'"
  using assms unfolding conv_ok_def by simp

lemma conv_ok_fasta:
  assumes inv: "upd_inv N roots seen s" and ok: "conv_ok s"
  shows "conv_ok (s\<lparr>gff_converted_line_dict := (gff_converted_line_dict s)(line_num s \<mapsto> l)\<rparr>)"
proof (rule conv_okI)
  let ?s' = "s\<lparr>gff_converted_line_dict := (gff_converted_line_dict s)(line_num s \<mapsto> l)\<rparr>"
  have n: "gff_line_status_dict s (line_num s) = None
           \<or> is_removed (gff_line_status_dict s (line_num s))"
    using upd_invD(6) [OF inv, of "line_num s"] upd_invD(1) [OF inv] by simp
  fix k
  {
    assume a: "gff_line_status_dict ?s' k = Some KEEP"
    with n have "k \<noteq> line_num s" by (auto simp: is_removed_def)
    with conv_okD(1) [OF ok, of k] a
    show "\<exists>c. gff_converted_line_dict ?s' k = Some c \<and> TAB \<in> set c" by simp
  next
    assume a: "gff_line_status_dict ?s' k = Some HEADER"
    with n have "k \<noteq> line_num s" by (auto simp: is_removed_def)
    with conv_okD(2) [OF ok, of k] a
    show "\<exists>c. gff_converted_line_dict ?s' k = Some c
                  \<and> \<not> startswith (strip c) ''##sequence-region''" by simp
  }
qed

lemma conv_ok_step:
  assumes inv: "upd_inv N roots seen s" and ok: "conv_ok s"
    and nb: "\<not> is_blank l" and nf: "\<not> is_fasta l"
    and st: "update_step adict roots groups l s = Inr (Next s')"
  shows "conv_ok s'"
proof (cases "is_comment l")
  case True
  from nb True nf st obtain s1 where s1: "Next s' = Next s1"
    "gff_converted_line_dict s1 = (gff_converted_line_dict s)(line_num s \<mapsto> l)"
    "(gff_line_status_dict s1 = (gff_line_status_dict s)(line_num s \<mapsto> SEQUENCE_REGION))
     \<or> (gff_line_status_dict s1 = (gff_line_status_dict s)(line_num s \<mapsto> HEADER)
         \<and> \<not> startswith (strip l) ''##sequence-region'')"
    by (rule update_step_comment_status)
  then have e: "s1 = s'" by simp
  show ?thesis
  proof (rule conv_okI)
    fix k
    {
      assume a: "gff_line_status_dict s' k = Some KEEP"
      with s1(3) e have kn: "k \<noteq> line_num s" and "gff_line_status_dict s k = Some KEEP"
        by (auto split: if_splits)
      with conv_okD(1) [OF ok, of k] s1(2) e
      show "\<exists>c. gff_converted_line_dict s' k = Some c \<and> TAB \<in> set c" by simp
    next
      assume a: "gff_line_status_dict s' k = Some HEADER"
      show "\<exists>c. gff_converted_line_dict s' k = Some c
                  \<and> \<not> startswith (strip c) ''##sequence-region''"
      proof (cases "k = line_num s")
        case True
        with a s1(3) e have "\<not> startswith (strip l) ''##sequence-region''" by auto
        with True s1(2) e show ?thesis by simp
      next
        case False
        with a s1(3) e have "gff_line_status_dict s k = Some HEADER" by auto
        with conv_okD(2) [OF ok, of k] s1(2) e False show ?thesis by simp
      qed
    }
  qed
next
  case nc: False
  have n: "gff_line_status_dict s (line_num s) = None
           \<or> is_removed (gff_line_status_dict s (line_num s))"
    using upd_invD(6) [OF inv, of "line_num s"] upd_invD(1) [OF inv] by simp
  from nb nc st show ?thesis
  proof (cases rule: update_step_featureE)
    case skip
    then have "s' = append_line l s" by simp
    with ok show ?thesis by (intro conv_ok_same [OF ok]) simp_all
  next
    case (process s1)
    then have e: "s' = append_line l s1" by simp
    from process(1) n have nk: "gff_line_status_dict s (line_num s) \<noteq> Some KEEP"
      by (auto simp: is_removed_def)
    have "conv_ok s1"
      using process(2)
    proof (cases rule: update_feature_casesE)
      case (remove v)
      show ?thesis
      proof (rule conv_okI)
        fix k
        {
          assume a: "gff_line_status_dict s1 k = Some KEEP"
          with remove(1,3) have "gff_line_status_dict s k = Some KEEP"
            by (auto simp: mark_group_apply split: if_splits)
          with conv_okD(1) [OF ok, of k] remove(3)
          show "\<exists>c. gff_converted_line_dict s1 k = Some c \<and> TAB \<in> set c" by simp
        next
          assume a: "gff_line_status_dict s1 k = Some HEADER"
          with remove(1,3) have "gff_line_status_dict s k = Some HEADER"
            by (auto simp: mark_group_apply split: if_splits)
          with conv_okD(2) [OF ok, of k] remove(3)
          show "\<exists>c. gff_converted_line_dict s1 k = Some c
                  \<and> \<not> startswith (strip c) ''##sequence-region''" by simp
        }
      qed
    next
      case (keep newtext)
      then have kst: "gff_line_status_dict s1 (line_num s) = Some KEEP" by simp
      note tab = update_feature_keep_tab [OF process(2) kst nk]
      show ?thesis
      proof (rule conv_okI)
        fix k
        {
          assume a: "gff_line_status_dict s1 k = Some KEEP"
          show "\<exists>c. gff_converted_line_dict s1 k = Some c \<and> TAB \<in> set c"
          proof (cases "k = line_num s")
            case True
            with tab show ?thesis by simp
          next
            case False
            with a keep have "gff_line_status_dict s k = Some KEEP" by simp
            with conv_okD(1) [OF ok, of k] keep False show ?thesis by simp
          qed
        next
          assume a: "gff_line_status_dict s1 k = Some HEADER"
          with keep have kn: "k \<noteq> line_num s" by auto
          with a keep have "gff_line_status_dict s k = Some HEADER" by simp
          with conv_okD(2) [OF ok, of k] keep kn
          show "\<exists>c. gff_converted_line_dict s1 k = Some c
                  \<and> \<not> startswith (strip c) ''##sequence-region''" by simp
        }
      qed
    qed
    then show ?thesis unfolding e by (rule conv_ok_same) simp_all
  qed
qed

lemma conv_ok_loop:
  assumes ctx: "roots_ok N roots" "groups_ok roots groups"
  shows "upd_inv N roots seen s \<Longrightarrow> conv_ok s \<Longrightarrow> N = seen @ numbered ls \<Longrightarrow>
         for_lines (update_step adict roots groups) ls s = Inr fin \<Longrightarrow> conv_ok fin"
proof (induction ls arbitrary: seen s)
  case Nil
  then show ?case by simp
next
  case (Cons l ls)
  let ?step = "update_step adict roots groups"
  obtain c where c: "?step l s = Inr c"
    using Cons.prems(4) by (cases "?step l s") simp_all
  show ?case
  proof (cases "is_blank l")
    case True
    with c have "c = Next s" by (simp add: update_step_blank)
    with Cons.prems(4) c have run: "for_lines ?step ls s = Inr fin" by simp
    from Cons.prems(3) True have nx: "N = seen @ numbered ls" by simp
    from Cons.IH [OF Cons.prems(1,2) nx run] show ?thesis .
  next
    case nb: False
    show ?thesis
    proof (cases "is_fasta l")
      case True
      with nb c have "c = Stop (s\<lparr>gff_converted_line_dict :=
                          (gff_converted_line_dict s)(line_num s \<mapsto> l)\<rparr>)"
        by (simp add: update_step_fasta)
      with Cons.prems(4) c have "fin = s\<lparr>gff_converted_line_dict :=
                          (gff_converted_line_dict s)(line_num s \<mapsto> l)\<rparr>" by simp
      with conv_ok_fasta [OF Cons.prems(1,2), of l] show ?thesis by simp
    next
      case nf: False
      with nb Cons.prems(3) have nx: "N = seen @ l # numbered ls" by simp
      from update_step_inv [OF ctx Cons.prems(1) nx nb nf c] obtain s1 where
        s1: "c = Next s1" "upd_inv N roots (seen @ [l]) s1" by blast
      from c s1(1) have st: "?step l s = Inr (Next s1)" by simp
      have ok1: "conv_ok s1" using Cons.prems(1,2) nb nf st by (rule conv_ok_step)
      from Cons.prems(4) c s1(1) have run: "for_lines ?step ls s1 = Inr fin" by simp
      from nx have nx1: "N = (seen @ [l]) @ numbered ls" by simp
      from Cons.IH [OF s1(2) ok1 nx1 run] show ?thesis .
    qed
  qed
qed

lemma conv_ok_init: "conv_ok upd_init"
  by (simp add: conv_ok_def upd_init_def)

lemma classify_conv_ok:
  assumes "classify al gff = Inr u"
  shows "conv_ok u"
proof -
  from assms obtain rs where rs: "find_root_features gff = Inr rs"
    and u: "update_features (alignment_dict_of al) rs gff = Inr u"
    by (auto simp: classify_def elim!: bind_e_InrE)
  note ctx = tree_ctx [OF rs]
  from u have run: "for_lines (update_step (alignment_dict_of al) (gff_line_root_list rs)
                     (gff_root_line_dict rs)) gff upd_init = Inr u"
    by (simp add: update_features_def)
  have nx: "numbered gff = [] @ numbered gff" by simp
  from conv_ok_loop [OF ctx upd_inv_init conv_ok_init nx run] show ?thesis .
qed

subsection \<open>The synthesized sequence-region line\<close>

lemma output_step_lookup:
  assumes st: "output_step sr u (lc, line) s = Inr s1"
    and W: "wrote_sequence_region s = {x. \<exists>j < lc. keep_scaffold u j = Some x}"
    and ks: "keep_scaffold u lc = Some y"
    and first: "\<not> (\<exists>j < lc. keep_scaffold u j = Some y)"
  shows "sr y \<noteq> None"
proof -
  from ks have d: "gff_line_status_dict u lc = Some KEEP"
    by (simp add: keep_scaffold_def split: if_splits)
  with ks obtain conv where conv: "gff_converted_line_dict u lc = Some conv"
    and y: "y = hd (split_on TAB conv)"
    by (auto simp: keep_scaffold_def)
  from first W y have nw: "hd (split_on TAB conv) \<notin> wrote_sequence_region s" by simp
  from st d conv nw obtain r where "lookup_py sr (hd (split_on TAB conv)) = Inr r"
    by (auto simp: output_step_def Let_def lookup_py_def bind_e_def split: option.splits)
  with y show ?thesis by (simp add: lookup_py_Inr)
qed

lemma output_loop_lookup:
  "for_each (output_step sr u) (zip [a ..< a + length ls] ls) s = Inr s' \<Longrightarrow>
   wrote_sequence_region s = {x. \<exists>j < a. keep_scaffold u j = Some x} \<Longrightarrow>
   a \<le> lc \<Longrightarrow> lc < a + length ls \<Longrightarrow> keep_scaffold u lc = Some y \<Longrightarrow>
   \<not> (\<exists>j < lc. keep_scaffold u j = Some y) \<Longrightarrow> sr y \<noteq> None"
proof (induction ls arbitrary: a s)
  case Nil
  then show ?case by simp
next
  case (Cons l ls)
  have up: "[a ..< a + length (l # ls)] = a # [Suc a ..< Suc a + length ls]"
    by (subst upt_rec) simp
  from Cons.prems(1) obtain s1 where s1: "output_step sr u (a, l) s = Inr s1"
    "for_each (output_step sr u) (zip [Suc a ..< Suc a + length ls] ls) s1 = Inr s'"
    unfolding up by (auto elim!: bind_e_InrE)
  show ?case
  proof (cases "lc = a")
    case True
    with output_step_lookup [OF s1(1) Cons.prems(2)] Cons.prems(5,6) show ?thesis by simp
  next
    case False
    from output_step_effect [OF s1(1) Cons.prems(2)]
    have w1: "wrote_sequence_region s1 = {x. \<exists>j < Suc a. keep_scaffold u j = Some x}" by simp
    from False Cons.prems(3,4) have r: "Suc a \<le> lc" "lc < Suc a + length ls" by simp_all
    from Cons.IH [OF s1(2) w1 r Cons.prems(5,6)] show ?thesis .
  qed
qed

lemma count_concat:
  "count_list (concat (map f xs)) r = sum_list (map (\<lambda>i. count_list (f i) r) xs)"
  by (induction xs) simp_all

lemma sum_indicator_zero:
  "(\<And>z. z \<in> set xs \<Longrightarrow> \<not> P z) \<Longrightarrow> sum_list (map (\<lambda>i. if P i then 1 else 0) xs) = (0::nat)"
  by (induction xs) simp_all

lemma sum_indicator_le_one:
  "distinct xs \<Longrightarrow> (\<And>a b. a \<in> set xs \<Longrightarrow> b \<in> set xs \<Longrightarrow> P a \<Longrightarrow> P b \<Longrightarrow> a = b) \<Longrightarrow>
   sum_list (map (\<lambda>i. if P i then 1 else 0) xs) \<le> (1::nat)"
proof (induction xs)
  case Nil
  then show ?case by simp
next
  case (Cons y ys)
  show ?case
  proof (cases "P y")
    case True
    have "\<And>z. z \<in> set ys \<Longrightarrow> \<not> P z"
    proof
      fix z assume z: "z \<in> set ys" and "P z"
      with True Cons.prems(2) [of y z] have "y = z" by simp
      with z Cons.prems(1) show False by simp
    qed
    then have "sum_list (map (\<lambda>i. if P i then 1 else 0) ys) = (0::nat)"
      by (rule sum_indicator_zero)
    with True show ?thesis by simp
  next
    case False
    have "sum_list (map (\<lambda>i. if P i then 1 else 0) ys) \<le> (1::nat)"
      using Cons.prems by (intro Cons.IH) auto
    with False show ?thesis by simp
  qed
qed


lemma expected_regions_form:
  assumes "expected_regions al Map.empty y \<noteq> None"
  shows "\<exists>a b. expected_regions al Map.empty y = Some (region_line y a b)"
  using assms by (auto simp: expected_regions_def split: if_splits)

lemma written_count:
  assumes tab: "TAB \<notin> set x" and ok: "conv_ok u"
    and sr: "sr = expected_regions al Map.empty" and xin: "x \<in> new_id ` set al"
    and lk: "\<And>y. keep_scaffold u lc = Some y \<Longrightarrow>
               \<not> (\<exists>j < lc. keep_scaffold u j = Some y) \<Longrightarrow> sr y \<noteq> None"
  shows "(if keep_scaffold u lc = Some x \<and> \<not> (\<exists>j < lc. keep_scaffold u j = Some x)
          then written_for sr u lc = [the (sr x), the (gff_converted_line_dict u lc)]
               \<and> count_list (written_for sr u lc) (the (sr x)) = 1
          else count_list (written_for sr u lc) (the (sr x)) = 0)"
proof -
  let ?r = "the (sr x)"
  from xin sr obtain lo hi where r: "sr x = Some (region_line x lo hi)"
    by (auto simp: expected_regions_def)
  then have rr: "?r = region_line x lo hi" by simp
  have rtab: "TAB \<notin> set ?r" unfolding rr using tab by (rule region_line_no_tab)
  have rsw: "startswith (strip ?r) ''##sequence-region''"
    unfolding rr by (rule region_line_startswith)
  show ?thesis
  proof (cases "gff_line_status_dict u lc = Some KEEP")
    case True
    from conv_okD(1) [OF ok True] obtain c where
      c: "gff_converted_line_dict u lc = Some c" "TAB \<in> set c" by blast
    with rtab have cr: "c \<noteq> ?r" by auto
    let ?y = "hd (split_on TAB c)"
    have ks: "keep_scaffold u lc = Some ?y" using True c by (simp add: keep_scaffold_def)
    show ?thesis
    proof (cases "\<exists>j < lc. keep_scaffold u j = Some ?y")
      case ex: True
      then have wf: "written_for sr u lc = [c]"
        using True c ks by (simp add: written_for_def)
      have nf: "\<not> (keep_scaffold u lc = Some x \<and> \<not> (\<exists>j < lc. keep_scaffold u j = Some x))"
        using ks ex by auto
      from wf cr nf show ?thesis by simp
    next
      case nex: False
      from lk [OF ks nex] have "sr ?y \<noteq> None" .
      with sr obtain a b where ry: "sr ?y = Some (region_line ?y a b)"
        using expected_regions_form [of al ?y] by auto
      have wf: "written_for sr u lc = [region_line ?y a b, c]"
        using True c ks nex ry by (simp add: written_for_def)
      show ?thesis
      proof (cases "?y = x")
        case yx: True
        with ry r have e: "region_line ?y a b = ?r" by simp
        have f: "keep_scaffold u lc = Some x \<and> \<not> (\<exists>j < lc. keep_scaffold u j = Some x)"
          using ks nex yx by simp
        from wf e cr c f show ?thesis by simp
      next
        case ny: False
        have ne: "region_line ?y a b \<noteq> ?r"
        proof
          assume "region_line ?y a b = ?r"
          then have "region_line ?y a b = region_line x lo hi" using rr by simp
          then have "?y = x" by (rule region_line_inj)
          with ny show False by simp
        qed
        have nf: "\<not> (keep_scaffold u lc = Some x \<and> \<not> (\<exists>j < lc. keep_scaffold u j = Some x))"
          using ks ny by simp
        from wf ne cr nf show ?thesis by simp
      qed
    qed
  next
    case nk: False
    then have ks: "keep_scaffold u lc = None" by (simp add: keep_scaffold_def)
    show ?thesis
    proof (cases "gff_line_status_dict u lc = Some HEADER")
      case True
      from conv_okD(2) [OF ok True] obtain c where
        c: "gff_converted_line_dict u lc = Some c"
           "\<not> startswith (strip c) ''##sequence-region''" by blast
      with rsw have cr: "c \<noteq> ?r" by auto
      have wf: "written_for sr u lc = [c]" using True c by (simp add: written_for_def)
      from wf cr ks show ?thesis by simp
    next
      case False
      with nk have wf: "written_for sr u lc = []"
        by (auto simp: written_for_def split: option.splits status.splits)
      from wf ks show ?thesis by simp
    qed
  qed
qed


lemma split_on_no_sep: "t \<in> set (split_on sep s) \<Longrightarrow> sep \<notin> set t"
proof (induction s arbitrary: t)
  case Nil
  then show ?case by simp
next
  case (Cons c cs)
  show ?case
  proof (cases "c = sep")
    case True
    with Cons.prems have "t = [] \<or> t \<in> set (split_on sep cs)" by simp
    then show ?thesis using Cons.IH by auto
  next
    case False
    show ?thesis
    proof (cases "split_on sep cs")
      case Nil
      with False Cons.prems have "t = [c]" by simp
      with False show ?thesis by simp
    next
      case (Cons h ts)
      with False Cons.prems have "t = c # h \<or> t \<in> set ts" by simp
      then show ?thesis
      proof
        assume t: "t = c # h"
        have "h \<in> set (split_on sep cs)" using Cons by simp
        then have "sep \<notin> set h" by (rule Cons.IH)
        with t False show ?thesis by auto
      next
        assume "t \<in> set ts"
        then have "t \<in> set (split_on sep cs)" using Cons by simp
        then show ?thesis by (rule Cons.IH)
      qed
    qed
  qed
qed

lemma convert_fields_strings:
  "convert_fields fts = Inr vs \<Longrightarrow> PyStr t \<in> set vs \<Longrightarrow>
   (\<And>f s. (f, s) \<in> set fts \<Longrightarrow> f = conv_str \<or> f = conv_int) \<Longrightarrow> t \<in> snd ` set fts"
proof (induction fts arbitrary: vs)
  case Nil
  then show ?case by simp
next
  case (Cons p rest)
  obtain f s where p: "p = (f, s)" by (cases p)
  from Cons.prems(1) obtain v where v: "f s = Inr v"
    and r: "bind_e (convert_fields rest) (\<lambda>vs. Inr (v # vs)) = Inr vs"
    unfolding p convert_fields.simps by (erule bind_e_InrE)
  from r obtain ws where ws: "convert_fields rest = Inr ws" and vs: "Inr (v # ws) = (Inr vs :: error + pyval list)"
    by (erule bind_e_InrE)
  from vs have vs': "vs = v # ws" by simp
  from Cons.prems(2) have "PyStr t = v \<or> PyStr t \<in> set ws" unfolding vs' by auto
  then show ?case
  proof
    assume e: "PyStr t = v"
    have "f = conv_str \<or> f = conv_int" by (rule Cons.prems(3) [of f s]) (simp add: p)
    then have "t = s"
    proof
      assume "f = conv_str"
      with v have "v = PyStr s" by (simp add: conv_str_def)
      with e show ?thesis by simp
    next
      assume "f = conv_int"
      with v obtain i where "v = PyInt i"
        by (cases "py_int s") (auto simp: conv_int_def bind_e_def)
      with e show ?thesis by simp
    qed
    then show ?thesis by (simp add: p)
  next
    assume "PyStr t \<in> set ws"
    with ws have "t \<in> snd ` set rest"
    proof (rule Cons.IH)
      fix f s assume "(f, s) \<in> set rest"
      then show "f = conv_str \<or> f = conv_int" using Cons.prems(3) [of f s] by simp
    qed
    then show ?thesis by auto
  qed
qed

lemma loader_ids_tab_free:
  assumes "parse_row line = Inr vs" and "PyStr t \<in> set vs"
  shows "TAB \<notin> set t"
proof -
  from assms(1) have c: "convert_fields (zip tsv_format (split_on TAB line)) = Inr vs"
    by (simp add: parse_row_def)
  have "t \<in> snd ` set (zip tsv_format (split_on TAB line))"
    using c assms(2)
  proof (rule convert_fields_strings)
    fix f s assume "(f, s) \<in> set (zip tsv_format (split_on TAB line))"
    then have "f \<in> set tsv_format" by (rule set_zip_leftD)
    then show "f = conv_str \<or> f = conv_int" by (auto simp: tsv_format_def)
  qed
  then obtain f where "(f, t) \<in> set (zip tsv_format (split_on TAB line))" by auto
  then have "t \<in> set (split_on TAB line)" by (rule set_zip_rightD)
  then show ?thesis by (rule split_on_no_sep)
qed

text \<open>
  C6. Let \<open>x\<close> be a new id of the alignment table, and let no new id of the table contain
  a tab (the loader splits every record on tabs, so none of its strings does:
  \<open>loader_ids_tab_free\<close>). Whenever \<open>update\<close> returns, the dictionary of region lines
  holds for \<open>x\<close> the line \<open>##sequence-region x (min + 1) max\<close>, with \<open>min\<close> and
  \<open>max\<close> taken over all \<open>new_start\<close> and \<open>new_end\<close> of the records of \<open>x\<close>; the
  updated file contains that line at most once; it contains it exactly when some written
  feature line has \<open>x\<close> in its rewritten column 1; and at the first such line, the output
  is what was written for the earlier lines, then the region line, then immediately the
  rewritten feature line.
\<close>

theorem region_line_once:
  assumes out: "update al gff = Inr out" and xin: "x \<in> new_id ` set al"
    and tab: "\<forall>a \<in> set al. TAB \<notin> set (new_id a)"
  shows "\<exists>u sr r. classify al gff = Inr u \<and> output_sequence_region al = Inr sr
     \<and> r = region_line x (Min (set (new_coords al x)) + 1) (Max (set (new_coords al x)))
     \<and> sr x = Some r
     \<and> count_list (updated_file out) r \<le> 1
     \<and> (r \<in> set (updated_file out)
          \<longleftrightarrow> (\<exists>lc < length (body_lines gff). keep_scaffold u lc = Some x))
     \<and> (\<forall>lc < length (body_lines gff).
           keep_scaffold u lc = Some x \<and> (\<forall>j < lc. keep_scaffold u j \<noteq> Some x) \<longrightarrow>
           (\<exists>c post. gff_converted_line_dict u lc = Some c
               \<and> updated_file out
                   = concat (map (written_for sr u) [0 ..< lc]) @ r # c # post))"
proof -
  from out obtain rs where rs: "find_root_features gff = Inr rs"
    and rest: "bind_e (update_features (alignment_dict_of al) rs gff)
                 (\<lambda>u. output_features al u) = Inr out"
    unfolding update_def by (erule bind_e_InrE)
  from rest obtain u where u: "update_features (alignment_dict_of al) rs gff = Inr u"
    and o: "output_features al u = Inr out"
    by (erule bind_e_InrE)
  define B where "B = body_lines gff"
  define n where "n = length B"
  define sr where "sr = expected_regions al Map.empty"
  define r where "r = region_line x (Min (set (new_coords al x)) + 1) (Max (set (new_coords al x)))"
  define F where "F = written_for sr u"
  define P where "P = (\<lambda>lc. keep_scaffold u lc = Some x \<and> \<not> (\<exists>j < lc. keep_scaffold u j = Some x))"
  note ctx = tree_ctx [OF rs]
  have cl: "classify al gff = Inr u" using rs u by (simp add: classify_def bind_e_def)
  have ok: "conv_ok u" using cl by (rule classify_conv_ok)
  from u have run: "for_lines (update_step (alignment_dict_of al) (gff_line_root_list rs)
                     (gff_root_line_dict rs)) gff upd_init = Inr u"
    by (simp add: update_features_def)
  have nx: "numbered gff = [] @ numbered gff" by simp
  from update_loop_inv [OF ctx upd_inv_init nx run]
  have inv: "upd_inv (numbered gff) (gff_line_root_list rs) (body_lines gff) u" by simp
  have ll: "gff_line_list u = B" unfolding B_def by (rule upd_invD(2) [OF inv])
  have srr: "output_sequence_region al = Inr sr"
    unfolding sr_def by (rule output_sequence_region_result)
  from o srr have loop: "for_each (output_step sr u) (zip [0 ..< 0 + length B] B) out_init = Inr out"
    by (simp add: output_features_def ll bind_e_def)
  have w0: "wrote_sequence_region out_init = {x. \<exists>j < 0. keep_scaffold u j = Some x}"
    by (simp add: out_init_def)
  have len: "length B = n" by (simp add: n_def)
  from output_loop_effect [OF loop w0]
  have uf: "updated_file out = concat (map F [0 ..< n])" by (simp add: out_init_def F_def len)
  have rx: "sr x = Some r" using xin by (simp add: expected_regions_def sr_def r_def)
  then have tr: "the (sr x) = r" by simp
  from xin tab have xt: "TAB \<notin> set x" by auto
  have line: "(if P lc then F lc = [r, the (gff_converted_line_dict u lc)]
                       \<and> count_list (F lc) r = 1
                  else count_list (F lc) r = 0)" if lc: "lc < n" for lc
  proof -
    have lk: "\<And>y. keep_scaffold u lc = Some y \<Longrightarrow>
               \<not> (\<exists>j < lc. keep_scaffold u j = Some y) \<Longrightarrow> sr y \<noteq> None"
      using output_loop_lookup [OF loop w0, of lc] lc by (simp add: len)
    from written_count [OF xt ok sr_def xin lk, of lc]
    show ?thesis unfolding tr P_def F_def .
  qed
  have lineT: "F lc = [r, the (gff_converted_line_dict u lc)]"
    and lineT': "count_list (F lc) r = 1" if "lc < n" "P lc" for lc
    using line [OF that(1)] unfolding if_P [OF that(2)] by (rule conjunct1, rule conjunct2)
  have lineF: "count_list (F lc) r = 0" if "lc < n" "\<not> P lc" for lc
    using line [OF that(1)] unfolding if_not_P [OF that(2)] .
  have uniq: "a = b" if a: "P a" and b: "P b" for a b
  proof (rule ccontr)
    assume "a \<noteq> b"
    then consider "a < b" | "b < a" by arith
    then show False
    proof cases
      case 1
      from a have "keep_scaffold u a = Some x" unfolding P_def by (rule conjunct1)
      with 1 have "\<exists>j < b. keep_scaffold u j = Some x" by blast
      moreover from b have "\<not> (\<exists>j < b. keep_scaffold u j = Some x)"
        unfolding P_def by (rule conjunct2)
      ultimately show False by simp
    next
      case 2
      from b have "keep_scaffold u b = Some x" unfolding P_def by (rule conjunct1)
      with 2 have "\<exists>j < a. keep_scaffold u j = Some x" by blast
      moreover from a have "\<not> (\<exists>j < a. keep_scaffold u j = Some x)"
        unfolding P_def by (rule conjunct2)
      ultimately show False by simp
    qed
  qed
  have cnt: "count_list (updated_file out) r \<le> 1"
  proof -
    have "count_list (updated_file out) r
            = sum_list (map (\<lambda>lc. count_list (F lc) r) [0 ..< n])"
      unfolding uf by (rule count_concat)
    also have "map (\<lambda>lc. count_list (F lc) r) [0 ..< n]
             = map (\<lambda>lc. if P lc then 1 else 0) [0 ..< n]"
    proof (rule map_cong [OF refl])
      fix lc assume "lc \<in> set [0 ..< n]"
      then have l: "lc < n" by simp
      show "count_list (F lc) r = (if P lc then 1 else 0)"
      proof (cases "P lc")
        case True
        from lineT' [OF l True] show ?thesis unfolding if_P [OF True] .
      next
        case False
        from lineF [OF l False] show ?thesis unfolding if_not_P [OF False] .
      qed
    qed
    also have "sum_list (map (\<lambda>lc. if P lc then 1 else 0) [0 ..< n]) \<le> (1::nat)"
    proof (rule sum_indicator_le_one)
      show "distinct [0 ..< n]" by simp
    next
      fix a b assume "P a" "P b"
      then show "a = b" by (rule uniq)
    qed
    finally show ?thesis .
  qed
  have present: "r \<in> set (updated_file out) \<longleftrightarrow> (\<exists>lc < n. keep_scaffold u lc = Some x)"
  proof
    assume "r \<in> set (updated_file out)"
    then obtain lc where lc: "lc < n" "r \<in> set (F lc)" unfolding uf by auto
    have "P lc"
    proof (rule ccontr)
      assume "\<not> P lc"
      from lineF [OF lc(1) this] have "r \<notin> set (F lc)" by (simp add: count_list_0_iff)
      with lc(2) show False by simp
    qed
    then have "keep_scaffold u lc = Some x" unfolding P_def by (rule conjunct1)
    with lc(1) show "\<exists>lc < n. keep_scaffold u lc = Some x" by blast
  next
    assume "\<exists>lc < n. keep_scaffold u lc = Some x"
    then obtain lc where lc: "lc < n" "keep_scaffold u lc = Some x" by blast
    define m where "m = (LEAST i. keep_scaffold u i = Some x)"
    have m1: "keep_scaffold u m = Some x" unfolding m_def using lc(2) by (rule LeastI)
    have m2: "\<not> (\<exists>j < m. keep_scaffold u j = Some x)"
    proof
      assume "\<exists>j < m. keep_scaffold u j = Some x"
      then obtain j where j: "j < m" "keep_scaffold u j = Some x" by blast
      from j(2) have "m \<le> j" unfolding m_def by (rule Least_le)
      with j(1) show False by simp
    qed
    have "m \<le> lc" unfolding m_def using lc(2) by (rule Least_le)
    with lc(1) have m3: "m < n" by simp
    have "P m" unfolding P_def using m1 m2 by (rule conjI)
    from lineT [OF m3 this] have "r \<in> set (F m)" by simp
    with m3 show "r \<in> set (updated_file out)" unfolding uf by auto
  qed
  have pos: "\<forall>lc < n. keep_scaffold u lc = Some x \<and> (\<forall>j < lc. keep_scaffold u j \<noteq> Some x) \<longrightarrow>
           (\<exists>c post. gff_converted_line_dict u lc = Some c
               \<and> updated_file out = concat (map F [0 ..< lc]) @ r # c # post)"
  proof (intro allI impI)
    fix lc assume lc: "lc < n"
      and h: "keep_scaffold u lc = Some x \<and> (\<forall>j < lc. keep_scaffold u j \<noteq> Some x)"
    from h have h1: "keep_scaffold u lc = Some x" by (rule conjunct1)
    from h have "\<forall>j < lc. keep_scaffold u j \<noteq> Some x" by (rule conjunct2)
    then have h2: "\<not> (\<exists>j < lc. keep_scaffold u j = Some x)" by blast
    have p: "P lc" unfolding P_def using h1 h2 by (rule conjI)
    from h1 obtain c where c: "gff_converted_line_dict u lc = Some c"
      by (auto simp: keep_scaffold_def split: if_splits option.splits)
    from lineT [OF lc p] c have f: "F lc = [r, c]" by simp
    from lc obtain k where k: "n = lc + k" by (auto dest: less_imp_add_positive)
    have "[0 ..< lc + k] = [0 ..< lc] @ [lc ..< lc + k]" by (rule upt_add_eq_append) simp
    moreover have "[lc ..< n] = lc # [Suc lc ..< n]" using lc by (rule upt_conv_Cons)
    ultimately have split: "[0 ..< n] = [0 ..< lc] @ lc # [Suc lc ..< n]"
      unfolding k by simp
    have "updated_file out
        = concat (map F [0 ..< lc]) @ F lc @ concat (map F [Suc lc ..< n])"
      unfolding uf by (subst split) simp
    then have "updated_file out
        = concat (map F [0 ..< lc]) @ r # c # concat (map F [Suc lc ..< n])"
      unfolding f by simp
    with c have "gff_converted_line_dict u lc = Some c
               \<and> updated_file out = concat (map F [0 ..< lc]) @ r # c # concat (map F [Suc lc ..< n])"
      by (rule conjI)
    then show "\<exists>c post. gff_converted_line_dict u lc = Some c
               \<and> updated_file out = concat (map F [0 ..< lc]) @ r # c # post"
      by (intro exI)
  qed
  show ?thesis
  proof (intro exI conjI)
    show "classify al gff = Inr u" by (rule cl)
    show "output_sequence_region al = Inr sr" by (rule srr)
    show "r = region_line x (Min (set (new_coords al x)) + 1) (Max (set (new_coords al x)))"
      by (rule r_def)
    show "sr x = Some r" by (rule rx)
    show "count_list (updated_file out) r \<le> 1" by (rule cnt)
    show "r \<in> set (updated_file out)
          \<longleftrightarrow> (\<exists>lc < length (body_lines gff). keep_scaffold u lc = Some x)"
      using present unfolding n_def B_def .
    show "\<forall>lc < length (body_lines gff).
           keep_scaffold u lc = Some x \<and> (\<forall>j < lc. keep_scaffold u j \<noteq> Some x) \<longrightarrow>
           (\<exists>c post. gff_converted_line_dict u lc = Some c
               \<and> updated_file out
                   = concat (map (written_for sr u) [0 ..< lc]) @ r # c # post)"
      using pos unfolding n_def B_def F_def .
  qed
qed

theorem region_line_once_witness:
  "\<exists>out u sr c post.
       update region_alignments region_gff = Inr out
     \<and> ''chr1_new'' \<in> new_id ` set region_alignments
     \<and> (\<forall>a \<in> set region_alignments. TAB \<notin> set (new_id a))
     \<and> classify region_alignments region_gff = Inr u
     \<and> output_sequence_region region_alignments = Inr sr
     \<and> region_line ''chr1_new'' (Min (set (new_coords region_alignments ''chr1_new'')) + 1)
          (Max (set (new_coords region_alignments ''chr1_new'')))
         = ''##sequence-region chr1_new 1001 2100'' @ [NL]
     \<and> sr ''chr1_new'' = Some (''##sequence-region chr1_new 1001 2100'' @ [NL])
     \<and> count_list (updated_file out) (''##sequence-region chr1_new 1001 2100'' @ [NL]) \<le> 1
     \<and> ''##sequence-region chr1_new 1001 2100'' @ [NL] \<in> set (updated_file out)
     \<and> 2 < length (body_lines region_gff)
     \<and> keep_scaffold u 2 = Some ''chr1_new'' \<and> keep_scaffold u 3 = Some ''chr1_new''
     \<and> (\<forall>j < 2. keep_scaffold u j \<noteq> Some ''chr1_new'')
     \<and> gff_converted_line_dict u 2 = Some c
     \<and> updated_file out
         = concat (map (written_for sr u) [0 ..< 2])
           @ (''##sequence-region chr1_new 1001 2100'' @ [NL]) # c # post
     \<and> updated_file out =
         [''##gff-version 3'' @ [NL],
          ''##sequence-region chr1_new 1001 2100'' @ [NL],
          join [TAB] [''chr1_new'', ''.'', ''gene'', ''1050'', ''1080'', ''.'', ''+'', ''.'',
                      ''ID=g1'' @ [NL]],
          join [TAB] [''chr1_new'', ''.'', ''gene'', ''2050'', ''2080'', ''.'', ''+'', ''.'',
                      ''ID=g2'' @ [NL]]]"
proof -
  let ?r = "''##sequence-region chr1_new 1001 2100'' @ [NL]"
  have run: "case update region_alignments region_gff of
               Inl e \<Rightarrow> False
             | Inr out \<Rightarrow>
                 updated_file out =
                   [''##gff-version 3'' @ [NL],
                    ''##sequence-region chr1_new 1001 2100'' @ [NL],
                    join [TAB] [''chr1_new'', ''.'', ''gene'', ''1050'', ''1080'', ''.'', ''+'',
                                ''.'', ''ID=g1'' @ [NL]],
                    join [TAB] [''chr1_new'', ''.'', ''gene'', ''2050'', ''2080'', ''.'', ''+'',
                                ''.'', ''ID=g2'' @ [NL]]]"
    by code_simp
  then obtain out where out: "update region_alignments region_gff = Inr out"
    by (cases "update region_alignments region_gff") simp_all
  with run have contents: "updated_file out =
                   [''##gff-version 3'' @ [NL],
                    ''##sequence-region chr1_new 1001 2100'' @ [NL],
                    join [TAB] [''chr1_new'', ''.'', ''gene'', ''1050'', ''1080'', ''.'', ''+'',
                                ''.'', ''ID=g1'' @ [NL]],
                    join [TAB] [''chr1_new'', ''.'', ''gene'', ''2050'', ''2080'', ''.'', ''+'',
                                ''.'', ''ID=g2'' @ [NL]]]"
    by simp
  have xin: "''chr1_new'' \<in> new_id ` set region_alignments"
    by (simp add: region_alignments_def)
  have tab: "\<forall>a \<in> set region_alignments. TAB \<notin> set (new_id a)"
    by (simp add: region_alignments_def TAB_def)
  have rv: "region_line ''chr1_new'' (Min (set (new_coords region_alignments ''chr1_new'')) + 1)
          (Max (set (new_coords region_alignments ''chr1_new''))) = ?r"
    by code_simp
  have n: "2 < length (body_lines region_gff)" by code_simp
  have ks: "case classify region_alignments region_gff of
              Inl e \<Rightarrow> False
            | Inr u \<Rightarrow> keep_scaffold u 2 = Some ''chr1_new''
                     \<and> keep_scaffold u 3 = Some ''chr1_new''
                     \<and> keep_scaffold u 0 \<noteq> Some ''chr1_new''
                     \<and> keep_scaffold u 1 \<noteq> Some ''chr1_new''"
    by code_simp
  from region_line_once [OF out xin tab] obtain u sr where
    cl: "classify region_alignments region_gff = Inr u"
    and sr: "output_sequence_region region_alignments = Inr sr"
    and srx: "sr ''chr1_new'' = Some ?r"
    and cnt: "count_list (updated_file out) ?r \<le> 1"
    and pos: "\<forall>lc < length (body_lines region_gff).
           keep_scaffold u lc = Some ''chr1_new''
             \<and> (\<forall>j < lc. keep_scaffold u j \<noteq> Some ''chr1_new'') \<longrightarrow>
           (\<exists>c post. gff_converted_line_dict u lc = Some c
               \<and> updated_file out
                   = concat (map (written_for sr u) [0 ..< lc]) @ ?r # c # post)"
    unfolding rv by blast
  from ks cl have k2: "keep_scaffold u 2 = Some ''chr1_new''"
    and k3: "keep_scaffold u 3 = Some ''chr1_new''"
    and k0: "keep_scaffold u 0 \<noteq> Some ''chr1_new''"
    and k1: "keep_scaffold u 1 \<noteq> Some ''chr1_new''"
    by simp_all
  have first: "\<forall>j < 2. keep_scaffold u j \<noteq> Some ''chr1_new''"
  proof (intro allI impI)
    fix j :: nat assume "j < 2"
    then have "j = 0 \<or> j = 1" by arith
    then show "keep_scaffold u j \<noteq> Some ''chr1_new''" using k0 k1 by auto
  qed
  from pos n k2 first obtain c post where
    c: "gff_converted_line_dict u 2 = Some c"
    and at: "updated_file out = concat (map (written_for sr u) [0 ..< 2]) @ ?r # c # post"
    by blast
  have mem: "?r \<in> set (updated_file out)" unfolding at by simp
  show ?thesis
    using out xin tab cl sr rv srx cnt mem n k2 k3 first c at contents by blast
qed

end
